theory Spec2Isabelle
  imports Main
begin

section \<open>String literals of the source\<close>

text \<open>
  The source's literals that are not ASCII are kept as their UTF-8 bytes.
\<close>

definition utf8 :: "nat list \<Rightarrow> string" where
  "utf8 bs = map char_of bs"

definition txt_paged_load_failed :: string where
  \<comment> \<open>the text before the colon in the two messages of the catch block of loadPhotosPaginated\<close>
  "txt_paged_load_failed =
     utf8 [229, 136, 134, 233, 161, 181, 229, 138, 160, 232, 189, 189, 229, 164, 177, 232, 180, 165]"

definition txt_load_photos_failed :: string where
  \<comment> \<open>the message of the Error thrown on a response that is not ok\<close>
  "txt_load_photos_failed =
     utf8 [229, 138, 160, 232, 189, 189, 231, 133, 167, 231, 137, 135, 229, 164, 177, 232, 180, 165]"

definition txt_photo :: string where
  \<comment> \<open>the default alt text of an image\<close>
  "txt_photo = utf8 [231, 133, 167, 231, 137, 135]"

definition txt_load_more :: string where
  \<comment> \<open>the text of the load-more button\<close>
  "txt_load_more = utf8 [229, 138, 160, 232, 189, 189, 230, 155, 180, 229, 164, 154, 46, 46, 46]"

definition txt_preload_failed :: string where
  \<comment> \<open>the first argument of console.log in preloadNextPage, colon included\<close>
  "txt_preload_failed =
     utf8 [233, 162, 132, 229, 138, 160, 232, 189, 189, 229, 164, 177, 232, 180, 165, 58]"

definition fallback_src :: string where
  \<comment> \<open>the data URL that onerror of loadImage assigns to img.src\<close>
  "fallback_src =
     ''data:image/svg+xml,<svg xmlns=\"http://www.w3.org/2000/svg\" width=\"200\" height=\"200\">'' @
     ''<text y=\"50%\" x=\"50%\" dominant-baseline=\"middle\" text-anchor=\"middle\" fill=\"#999\">'' @
     utf8 [229, 138, 160, 232, 189, 189, 229, 164, 177, 232, 180, 165] @
     ''</text></svg>''"

text \<open>Decimal rendering of a number inside a template literal.\<close>

function show_nat :: "nat \<Rightarrow> string" where
  "show_nat n =
     (if n < 10 then [char_of (48 + n)]
      else show_nat (n div 10) @ [char_of (48 + n mod 10)])"
  by pat_completeness auto
termination
  by (relation "measure (\<lambda>n. n)") auto

definition show_int :: "int \<Rightarrow> string" where
  "show_int i = (if i < 0 then CHR ''-'' # show_nat (nat (- i)) else show_nat (nat i))"

section \<open>Data model\<close>

text \<open>
  A record of the listing endpoint. \<open>photo_message\<close> is the empty string when the
  record has no message: the source only ever reads it as \<open>photo.message || default\<close>.
\<close>

record photo =
  photo_id :: string
  photo_type :: string
  photo_message :: string
  photo_date :: string

text \<open>The body of a listing response: \<open>result.photos\<close> and \<open>result.has_more\<close>.\<close>

record listing =
  res_photos :: "photo list"
  res_has_more :: bool

text \<open>A thrown JavaScript error: its name and message.\<close>

record js_error =
  err_name :: string
  err_message :: string

definition error_to_string :: "js_error \<Rightarrow> string" where
  \<comment> \<open>Error.prototype.toString, which args.join applies to an error argument\<close>
  "error_to_string e =
     (if err_name e = [] then err_message e
      else if err_message e = [] then err_name e
      else err_name e @ '': '' @ err_message e)"

text \<open>
  What awaiting a listing fetch can give: fetch rejects (a network error), the response
  is not ok, response.json() rejects, or the body arrives. A body that arrives is the
  endpoint's: a list of photo records and a boolean.
\<close>

datatype fetch_outcome =
    NetworkError js_error
  | HttpError
  | BodyError js_error
  | Success listing

subsection \<open>Elements\<close>

text \<open>
  An img element. \<open>None\<close> for a data attribute means the attribute is absent.
  \<open>img_loaded\<close> is membership of the class loaded.
\<close>

record img_elem =
  data_src :: "string option"
  data_lazy :: "string option"
  data_full :: "string option"
  img_alt :: string
  img_src :: string
  img_loaded :: bool
  img_opacity :: string

text \<open>
  What a photo item shows: an img element, named by its address in the element store,
  or a video with its src and poster.
\<close>

datatype media = Picture nat | Clip string string

record photo_item =
  item_index :: nat
  item_id :: string
  item_observed :: bool
  item_media :: media
  item_caption :: string
  item_date :: string
  item_checkbox :: string

text \<open>
  The elements the pipeline can tell apart: a \<open>div.photo-item\<close>, the element with id
  photoLoadingIndicator (with its style.display), the element with id loadMorePhotosBtn
  (style.display and textContent), the \<open>div.photo-empty\<close>, an img outside every photo
  item, and any other element.
\<close>

datatype node =
    PhotoItem photo_item
  | LoadingIndicator string
  | LoadMoreBtn string string
  | PhotoEmpty
  | PlainImg nat
  | OtherNode

text \<open>
  The document in document order: the elements before the element with id photoWall,
  the children of that element (\<open>None\<close> when the page has no such element), and the
  elements after it.
\<close>

record document =
  doc_before :: "node list"
  photoWall :: "node list option"
  doc_after :: "node list"

subsection \<open>The logger\<close>

record log_entry =
  log_timestamp :: string
  log_level :: int
  log_category :: string
  log_message :: string

text \<open>A call of one of the original console methods: the method and its arguments.\<close>

datatype console_call = ConsoleError "string list" | ConsoleWarn "string list" | ConsoleLog "string list"

subsection \<open>The state\<close>

text \<open>
  The fields of the PerformanceOptimizer instance, the fields of the Logger instance,
  the globals the two read and write (\<open>photos\<close>, \<open>SERVER_CONFIG.baseUrl\<close>,
  \<open>photoBatchMode\<close>), and the browser: the document, the img elements by address, the
  next fresh address, the temporary images of loadImage whose load has not finished
  (the target img and the src), the flag of the throttle closure of the scroll handler,
  every URL requested so far, the calls of loadPhotosPaginated suspended at their
  \<open>await fetch\<close> (page and append), and the clock: \<open>clock k\<close> is what the k-th call of
  formatTimestamp returns, \<open>ticks\<close> counts the calls made.
\<close>

record state =
  lazyLoadObserver :: "nat set option"
  currentPage :: int
  perPage :: int
  isLoading :: bool
  hasMore :: bool
  loadedPhotos :: "string set"
  currentLevel :: int
  logs :: "log_entry list"
  maxLogs :: nat
  console_out :: "console_call list"
  photos :: "photo list"
  baseUrl :: string
  photoBatchMode :: bool
  doc :: document
  imgs :: "nat \<Rightarrow> img_elem option"
  next_elem :: nat
  pending_loads :: "(nat \<times> string) list"
  inThrottle :: bool
  requests :: "string list"
  awaiting :: "(int \<times> bool) list"
  clock :: "nat \<Rightarrow> string"
  ticks :: nat

section \<open>Logger (logger.js)\<close>

definition LogLevel_DEBUG :: int where "LogLevel_DEBUG = 0"
definition LogLevel_INFO :: int where "LogLevel_INFO = 1"
definition LogLevel_WARN :: int where "LogLevel_WARN = 2"
definition LogLevel_ERROR :: int where "LogLevel_ERROR = 3"

definition original_console :: "int \<Rightarrow> string list \<Rightarrow> console_call list" where
  \<comment> \<open>the switch at the end of addLog\<close>
  "original_console level args =
     (if level = LogLevel_ERROR then [ConsoleError args]
      else if level = LogLevel_WARN then [ConsoleWarn args]
      else if level = LogLevel_INFO then [ConsoleLog args]
      else if level = LogLevel_DEBUG then [ConsoleLog args]
      else [])"

definition addLog :: "int \<Rightarrow> string \<Rightarrow> string \<Rightarrow> state \<Rightarrow> state" where
  \<comment> \<open>The write of the last 100 entries to localStorage, whose failure addLog ignores,
      is outside the model.\<close>
  "addLog level category message s =
     (let ts = clock s (ticks s);
          entry = \<lparr>log_timestamp = ts, log_level = level,
                   log_category = category, log_message = message\<rparr>;
          pushed = logs s @ [entry];
          kept = (if length pushed > maxLogs s then tl pushed else pushed);
          prefix = ''['' @ ts @ ''] ['' @ category @ '']''
      in s\<lparr>logs := kept, ticks := Suc (ticks s),
            console_out := console_out s @ original_console level [prefix, message]\<rparr>)"

definition logger_debug :: "string \<Rightarrow> string \<Rightarrow> state \<Rightarrow> state" where
  "logger_debug message category s =
     (if currentLevel s \<le> LogLevel_DEBUG then addLog LogLevel_DEBUG category message s else s)"

definition logger_error :: "string \<Rightarrow> string \<Rightarrow> state \<Rightarrow> state" where
  "logger_error message category s =
     (if currentLevel s \<le> LogLevel_ERROR then addLog LogLevel_ERROR category message s else s)"

fun join_args :: "string list \<Rightarrow> string" where
  \<comment> \<open>args.join(' ')\<close>
  "join_args [] = []"
| "join_args [a] = a"
| "join_args (a # b # as) = a @ '' '' @ join_args (b # as)"

definition console_error :: "string list \<Rightarrow> state \<Rightarrow> state" where
  \<comment> \<open>console.error as interceptConsole rebinds it: the logger first (default category
      ERROR), then the original method\<close>
  "console_error args s =
     (let s1 = logger_error (join_args args) ''ERROR'' s
      in s1\<lparr>console_out := console_out s1 @ [ConsoleError args]\<rparr>)"

definition console_log :: "string list \<Rightarrow> state \<Rightarrow> state" where
  \<comment> \<open>console.log as interceptConsole rebinds it (default category DEBUG)\<close>
  "console_log args s =
     (let s1 = logger_debug (join_args args) ''DEBUG'' s
      in s1\<lparr>console_out := console_out s1 @ [ConsoleLog args]\<rparr>)"

section \<open>Document access\<close>

definition wall_nodes :: "document \<Rightarrow> node list" where
  "wall_nodes d = (case photoWall d of None \<Rightarrow> [] | Some w \<Rightarrow> w)"

definition all_nodes :: "document \<Rightarrow> node list" where
  "all_nodes d = doc_before d @ wall_nodes d @ doc_after d"

fun node_id :: "node \<Rightarrow> string option" where
  "node_id (LoadingIndicator _) = Some ''photoLoadingIndicator''"
| "node_id (LoadMoreBtn _ _) = Some ''loadMorePhotosBtn''"
| "node_id _ = None"

definition has_id :: "string \<Rightarrow> node \<Rightarrow> bool" where
  "has_id ident n = (node_id n = Some ident)"

definition getElementById :: "string \<Rightarrow> document \<Rightarrow> node option" where
  \<comment> \<open>the first element with the id, in document order\<close>
  "getElementById ident d = find (has_id ident) (all_nodes d)"

fun update_first :: "('a \<Rightarrow> bool) \<Rightarrow> ('a \<Rightarrow> 'a) \<Rightarrow> 'a list \<Rightarrow> 'a list" where
  "update_first p f [] = []"
| "update_first p f (x # xs) = (if p x then f x # xs else x # update_first p f xs)"

definition update_element :: "string \<Rightarrow> (node \<Rightarrow> node) \<Rightarrow> document \<Rightarrow> document" where
  \<comment> \<open>a write to the element that getElementById returns\<close>
  "update_element ident f d =
     (if find (has_id ident) (doc_before d) \<noteq> None
      then d\<lparr>doc_before := update_first (has_id ident) f (doc_before d)\<rparr>
      else if find (has_id ident) (wall_nodes d) \<noteq> None
      then d\<lparr>photoWall := map_option (update_first (has_id ident) f) (photoWall d)\<rparr>
      else d\<lparr>doc_after := update_first (has_id ident) f (doc_after d)\<rparr>)"

definition map_nodes :: "(node \<Rightarrow> node) \<Rightarrow> document \<Rightarrow> document" where
  "map_nodes f d =
     \<lparr>doc_before = map f (doc_before d),
      photoWall = map_option (map f) (photoWall d),
      doc_after = map f (doc_after d)\<rparr>"

fun set_display :: "string \<Rightarrow> node \<Rightarrow> node" where
  \<comment> \<open>\<open>el.style.display = v\<close>\<close>
  "set_display v (LoadingIndicator _) = LoadingIndicator v"
| "set_display v (LoadMoreBtn _ t) = LoadMoreBtn v t"
| "set_display v n = n"

fun set_text :: "string \<Rightarrow> node \<Rightarrow> node" where
  \<comment> \<open>\<open>btn.textContent = t\<close>\<close>
  "set_text t (LoadMoreBtn v _) = LoadMoreBtn v t"
| "set_text t n = n"

fun display_of :: "node \<Rightarrow> string option" where
  "display_of (LoadingIndicator v) = Some v"
| "display_of (LoadMoreBtn v _) = Some v"
| "display_of _ = None"

fun is_photo_item :: "node \<Rightarrow> bool" where
  "is_photo_item (PhotoItem _) = True"
| "is_photo_item _ = False"

definition appendChild :: "node \<Rightarrow> document \<Rightarrow> document" where
  \<comment> \<open>\<open>document.getElementById('photoWall')?.appendChild(n)\<close>: nothing without the wall\<close>
  "appendChild n d =
     (case photoWall d of None \<Rightarrow> d | Some w \<Rightarrow> d\<lparr>photoWall := Some (w @ [n])\<rparr>)"

section \<open>PerformanceOptimizer (performance\_optimization.js)\<close>

definition constructor :: "state \<Rightarrow> state" where
  "constructor s =
     s\<lparr>lazyLoadObserver := None, currentPage := 1, perPage := 20,
       isLoading := False, hasMore := True, loadedPhotos := {}\<rparr>"

subsection \<open>Loading indicator and load-more button\<close>

definition showLoadingIndicator :: "state \<Rightarrow> state" where
  \<comment> \<open>An indicator created while the page has no wall is attached nowhere: the
      document does not change.\<close>
  "showLoadingIndicator s =
     (case getElementById ''photoLoadingIndicator'' (doc s) of
        None \<Rightarrow> s\<lparr>doc := appendChild (LoadingIndicator ''block'') (doc s)\<rparr>
      | Some indicator \<Rightarrow>
          s\<lparr>doc := update_element ''photoLoadingIndicator'' (set_display ''block'') (doc s)\<rparr>)"

definition hideLoadingIndicator :: "state \<Rightarrow> state" where
  "hideLoadingIndicator s =
     (case getElementById ''photoLoadingIndicator'' (doc s) of
        None \<Rightarrow> s
      | Some indicator \<Rightarrow>
          s\<lparr>doc := update_element ''photoLoadingIndicator'' (set_display ''none'') (doc s)\<rparr>)"

definition updateLoadMoreButton :: "state \<Rightarrow> state" where
  "updateLoadMoreButton s =
     (case getElementById ''loadMorePhotosBtn'' (doc s) of
        None \<Rightarrow>
          (if hasMore s
           then s\<lparr>doc := appendChild (LoadMoreBtn ''block'' txt_load_more) (doc s)\<rparr>
           else s)
      | Some btn \<Rightarrow>
          (if hasMore s
           then s\<lparr>doc := update_element ''loadMorePhotosBtn''
                            (set_text txt_load_more \<circ> set_display ''block'') (doc s)\<rparr>
           else s\<lparr>doc := update_element ''loadMorePhotosBtn'' (set_display ''none'') (doc s)\<rparr>))"

subsection \<open>Rendering\<close>

definition thumbnail_url :: "string \<Rightarrow> string \<Rightarrow> string" where
  "thumbnail_url base pid = base @ ''/api/photos/'' @ pid @ ''/thumbnail''"

definition full_url :: "string \<Rightarrow> string \<Rightarrow> string" where
  "full_url base pid = base @ ''/api/photos/'' @ pid @ ''/data''"

text \<open>
  createPhotoItem builds the item from an HTML template; the model gives the elements
  the template yields when the interpolated strings hold no HTML markup. The new
  element takes the next fresh address; the img of an image item is stored there.
\<close>

definition createPhotoItem :: "photo \<Rightarrow> nat \<Rightarrow> state \<Rightarrow> node \<times> state" where
  "createPhotoItem p index s =
     (let a = next_elem s;
          thumbnailUrl = thumbnail_url (baseUrl s) (photo_id p);
          fullUrl = full_url (baseUrl s) (photo_id p);
          item = \<lparr>item_index = index, item_id = photo_id p, item_observed = False,
                  item_media = Picture a, item_caption = photo_message p,
                  item_date = photo_date p,
                  item_checkbox = (if photoBatchMode s then ''flex'' else ''none'')\<rparr>
      in if photo_type p = ''video''
         then (PhotoItem (item\<lparr>item_media := Clip fullUrl thumbnailUrl\<rparr>),
               s\<lparr>next_elem := Suc a\<rparr>)
         else (PhotoItem item,
               s\<lparr>imgs := (imgs s)(a \<mapsto>
                      \<lparr>data_src = Some thumbnailUrl, data_lazy = None, data_full = Some fullUrl,
                       img_alt = (if photo_message p = [] then txt_photo else photo_message p),
                       img_src = [], img_loaded = False, img_opacity = ''0''\<rparr>),
                 next_elem := Suc a\<rparr>))"

fun build_fragment :: "photo list \<Rightarrow> nat \<Rightarrow> state \<Rightarrow> node list \<times> state" where
  \<comment> \<open>the forEach that fills the document fragment\<close>
  "build_fragment [] index s = ([], s)"
| "build_fragment (p # ps) index s =
     (case createPhotoItem p index s of
        (n, s1) \<Rightarrow> (case build_fragment ps (Suc index) s1 of (ns, s2) \<Rightarrow> (n # ns, s2)))"

definition lazy_img :: "(nat \<Rightarrow> img_elem option) \<Rightarrow> photo_item \<Rightarrow> nat option" where
  \<comment> \<open>\<open>item.querySelector('img[data-src]')\<close>\<close>
  "lazy_img store it =
     (case item_media it of
        Picture a \<Rightarrow>
          (case store a of
             None \<Rightarrow> None
           | Some i \<Rightarrow> (if data_src i \<noteq> None then Some a else None))
      | Clip v poster \<Rightarrow> None)"

fun observe_targets :: "(nat \<Rightarrow> img_elem option) \<Rightarrow> node list \<Rightarrow> nat list" where
  \<comment> \<open>the imgs that the loop over \<open>.photo-item:not(.observed)\<close> hands to observe\<close>
  "observe_targets store [] = []"
| "observe_targets store (PhotoItem it # ns) =
     (if item_observed it then observe_targets store ns
      else (case lazy_img store it of
              None \<Rightarrow> observe_targets store ns
            | Some a \<Rightarrow> a # observe_targets store ns))"
| "observe_targets store (n # ns) = observe_targets store ns"

fun mark_observed :: "node \<Rightarrow> node" where
  \<comment> \<open>\<open>item.classList.add('observed')\<close>\<close>
  "mark_observed (PhotoItem it) = PhotoItem (it\<lparr>item_observed := True\<rparr>)"
| "mark_observed n = n"

definition observe_new_items :: "state \<Rightarrow> state" where
  \<comment> \<open>the last block of renderPhotosOptimized; the query runs over the whole document\<close>
  "observe_new_items s =
     (case lazyLoadObserver s of
        None \<Rightarrow> s
      | Some obs \<Rightarrow>
          s\<lparr>lazyLoadObserver := Some (obs \<union> set (observe_targets (imgs s) (all_nodes (doc s)))),
            doc := map_nodes mark_observed (doc s)\<rparr>)"

definition set_wall :: "node list \<Rightarrow> state \<Rightarrow> state" where
  \<comment> \<open>\<open>photoWall.innerHTML = ...\<close>: the children of the wall are replaced\<close>
  "set_wall ns s = s\<lparr>doc := (doc s)\<lparr>photoWall := Some ns\<rparr>\<rparr>"

definition append_fragment :: "node list \<Rightarrow> state \<Rightarrow> state" where
  \<comment> \<open>\<open>photoWall.appendChild(fragment)\<close>\<close>
  "append_fragment fragment s =
     s\<lparr>doc := (doc s)\<lparr>photoWall := map_option (\<lambda>w. w @ fragment) (photoWall (doc s))\<rparr>\<rparr>"

definition renderPhotosOptimized :: "photo list \<Rightarrow> bool \<Rightarrow> state \<Rightarrow> state" where
  "renderPhotosOptimized photosList appendMode s =
     (case photoWall (doc s) of
        None \<Rightarrow> s
      | Some w \<Rightarrow>
          (let s0 = (if \<not> appendMode then set_wall [] s else s)
           in if photosList = [] \<and> \<not> appendMode
              then set_wall [PhotoEmpty] s0
              else (case build_fragment photosList 0 s0 of
                      (fragment, s1) \<Rightarrow> observe_new_items (append_fragment fragment s1))))"

subsection \<open>Lazy loading\<close>

definition deferred_src :: "img_elem \<Rightarrow> string option" where
  \<comment> \<open>\<open>img.dataset.src || img.dataset.lazy\<close>, \<open>None\<close> when the result is falsy\<close>
  "deferred_src i =
     (case data_src i of
        Some u \<Rightarrow> if u \<noteq> [] then Some u
                  else (case data_lazy i of
                          Some v \<Rightarrow> if v \<noteq> [] then Some v else None
                        | None \<Rightarrow> None)
      | None \<Rightarrow> (case data_lazy i of
                   Some v \<Rightarrow> if v \<noteq> [] then Some v else None
                 | None \<Rightarrow> None))"

definition loadImage :: "nat \<Rightarrow> state \<Rightarrow> state" where
  \<comment> \<open>A temporary image is created with its two handlers and given the src: the load
      is under way, and the URL is requested.\<close>
  "loadImage a s =
     (case imgs s a of
        None \<Rightarrow> s
      | Some img \<Rightarrow>
          (case deferred_src img of
             None \<Rightarrow> s
           | Some src \<Rightarrow>
               s\<lparr>pending_loads := pending_loads s @ [(a, src)],
                 requests := requests s @ [src]\<rparr>))"

definition unobserve :: "nat \<Rightarrow> state \<Rightarrow> state" where
  "unobserve a s = s\<lparr>lazyLoadObserver := map_option (\<lambda>obs. obs - {a}) (lazyLoadObserver s)\<rparr>"

fun observer_callback :: "(nat \<times> bool) list \<Rightarrow> state \<Rightarrow> state" where
  \<comment> \<open>the callback given to IntersectionObserver in initLazyLoad; an entry is its
      target and isIntersecting\<close>
  "observer_callback [] s = s"
| "observer_callback ((img, isIntersecting) # entries) s =
     observer_callback entries
       (if isIntersecting then unobserve img (loadImage img s) else s)"

definition tempImg_onload :: "nat \<Rightarrow> string \<Rightarrow> state \<Rightarrow> state" where
  "tempImg_onload a src s =
     (case imgs s a of
        None \<Rightarrow> s
      | Some img \<Rightarrow>
          s\<lparr>imgs := (imgs s)(a \<mapsto> img\<lparr>img_src := src, img_loaded := True, img_opacity := ''1''\<rparr>)\<rparr>)"

definition tempImg_onerror :: "nat \<Rightarrow> state \<Rightarrow> state" where
  "tempImg_onerror a s =
     (case imgs s a of
        None \<Rightarrow> s
      | Some img \<Rightarrow> s\<lparr>imgs := (imgs s)(a \<mapsto> img\<lparr>img_src := fallback_src\<rparr>)\<rparr>)"

fun doc_lazy_imgs :: "(nat \<Rightarrow> img_elem option) \<Rightarrow> node list \<Rightarrow> nat list" where
  \<comment> \<open>\<open>document.querySelectorAll('img[data-src], img[data-lazy]')\<close>\<close>
  "doc_lazy_imgs store [] = []"
| "doc_lazy_imgs store (n # ns) =
     (case (case n of PhotoItem it \<Rightarrow> (case item_media it of Picture a \<Rightarrow> Some a | Clip v p \<Rightarrow> None)
                    | PlainImg a \<Rightarrow> Some a
                    | _ \<Rightarrow> None) of
        None \<Rightarrow> doc_lazy_imgs store ns
      | Some a \<Rightarrow>
          (case store a of
             None \<Rightarrow> doc_lazy_imgs store ns
           | Some i \<Rightarrow>
               if data_src i \<noteq> None \<or> data_lazy i \<noteq> None
               then a # doc_lazy_imgs store ns
               else doc_lazy_imgs store ns))"

definition observeImages :: "state \<Rightarrow> state" where
  "observeImages s =
     (case lazyLoadObserver s of
        None \<Rightarrow> s
      | Some obs \<Rightarrow>
          s\<lparr>lazyLoadObserver := Some (obs \<union> set (doc_lazy_imgs (imgs s) (all_nodes (doc s))))\<rparr>)"

definition initLazyLoad :: "bool \<Rightarrow> state \<Rightarrow> state" where
  \<comment> \<open>the argument is \<open>'IntersectionObserver' in window\<close>\<close>
  "initLazyLoad supported s =
     (if supported then observeImages (s\<lparr>lazyLoadObserver := Some {}\<rparr>) else s)"

subsection \<open>Pagination\<close>

definition listing_url :: "string \<Rightarrow> int \<Rightarrow> int \<Rightarrow> string" where
  "listing_url base page per =
     base @ ''/api/photos?page='' @ show_int page @ ''&per_page='' @ show_int per"

definition loadPhotosPaginated_begin :: "int \<Rightarrow> bool \<Rightarrow> state \<Rightarrow> state" where
  \<comment> \<open>the call up to its \<open>await fetch\<close>\<close>
  "loadPhotosPaginated_begin page appendMode s =
     (if isLoading s then s
      else (let s1 = showLoadingIndicator (s\<lparr>isLoading := True\<rparr>)
            in s1\<lparr>requests := requests s1 @ [listing_url (baseUrl s1) page (perPage s1)],
                  awaiting := awaiting s1 @ [(page, appendMode)]\<rparr>))"

definition catch_block :: "js_error \<Rightarrow> state \<Rightarrow> state" where
  "catch_block e s =
     logger_error (txt_paged_load_failed @ '': '' @ err_message e) ''PERFORMANCE''
       (console_error [txt_paged_load_failed @ '':'', error_to_string e] s)"

definition finally_block :: "state \<Rightarrow> state" where
  "finally_block s = hideLoadingIndicator (s\<lparr>isLoading := False\<rparr>)"

definition loadPhotosPaginated_resume :: "int \<Rightarrow> bool \<Rightarrow> fetch_outcome \<Rightarrow> state \<Rightarrow> state" where
  \<comment> \<open>the rest of the call, from the state in which the fetch settles\<close>
  "loadPhotosPaginated_resume page appendMode outcome s =
     finally_block
       (case outcome of
          NetworkError e \<Rightarrow> catch_block e s
        | HttpError \<Rightarrow> catch_block \<lparr>err_name = ''Error'', err_message = txt_load_photos_failed\<rparr> s
        | BodyError e \<Rightarrow> catch_block e s
        | Success result \<Rightarrow>
            updateLoadMoreButton
              (renderPhotosOptimized (res_photos result) appendMode
                 (s\<lparr>photos := (if appendMode then photos s @ res_photos result
                                else res_photos result),
                    hasMore := res_has_more result,
                    currentPage := page\<rparr>)))"

definition loadPhotosPaginated :: "int \<Rightarrow> bool \<Rightarrow> fetch_outcome \<Rightarrow> state \<Rightarrow> state" where
  \<comment> \<open>a whole call, nothing else running while the fetch is awaited\<close>
  "loadPhotosPaginated page appendMode outcome s =
     (if isLoading s then s
      else (let s1 = loadPhotosPaginated_begin page appendMode s
            in loadPhotosPaginated_resume page appendMode outcome
                 (s1\<lparr>awaiting := remove1 (page, appendMode) (awaiting s1)\<rparr>)))"

definition preloadNextPage :: "fetch_outcome \<Rightarrow> state \<Rightarrow> state" where
  \<comment> \<open>a whole call; each \<open>new Image().src = url\<close> requests the URL\<close>
  "preloadNextPage outcome s =
     (if \<not> hasMore s \<or> isLoading s then s
      else (let nextPage = currentPage s + 1;
                s1 = s\<lparr>requests := requests s @ [listing_url (baseUrl s) nextPage (perPage s)]\<rparr>
            in case outcome of
                 NetworkError e \<Rightarrow> console_log [txt_preload_failed, error_to_string e] s1
               | HttpError \<Rightarrow> s1
               | BodyError e \<Rightarrow> console_log [txt_preload_failed, error_to_string e] s1
               | Success result \<Rightarrow>
                   s1\<lparr>requests := requests s1 @
                        map (\<lambda>p. thumbnail_url (baseUrl s1) (photo_id p)) (res_photos result)\<rparr>))"

subsection \<open>Scrolling and the button\<close>

definition scroll_check :: "int \<Rightarrow> int \<Rightarrow> int \<Rightarrow> state \<Rightarrow> state" where
  \<comment> \<open>the function that optimizeScroll throttles; the arguments are scrollTop,
      window.innerHeight and the document's scrollHeight, whole pixels\<close>
  "scroll_check scrollTop windowHeight documentHeight s =
     (if scrollTop + windowHeight \<ge> documentHeight - 500
      then (if hasMore s \<and> \<not> isLoading s
            then loadPhotosPaginated_begin (currentPage s + 1) True s
            else s)
      else s)"

definition scrollHandler :: "int \<Rightarrow> int \<Rightarrow> int \<Rightarrow> state \<Rightarrow> state" where
  \<comment> \<open>throttle applied to the check\<close>
  "scrollHandler scrollTop windowHeight documentHeight s =
     (if \<not> inThrottle s
      then (scroll_check scrollTop windowHeight documentHeight s)\<lparr>inThrottle := True\<rparr>
      else s)"

definition throttle_timeout :: "state \<Rightarrow> state" where
  \<comment> \<open>the timer that throttle sets\<close>
  "throttle_timeout s = s\<lparr>inThrottle := False\<rparr>"

definition loadMore_onclick :: "state \<Rightarrow> state" where
  \<comment> \<open>the onclick that updateLoadMoreButton gives the button it creates\<close>
  "loadMore_onclick s = loadPhotosPaginated_begin (currentPage s + 1) True s"

section \<open>The running pipeline\<close>

text \<open>
  What can happen once the page is initialised: a call of loadPhotosPaginated starts or
  one suspended at its fetch goes on, the renderer or the prefetch is called, the
  observer reports entries for targets it observes (each target once in a report), a
  temporary image finishes loading or fails, the page is scrolled, the throttle timer
  fires, the button is clicked. An event that cannot happen in a state gives \<open>None\<close>.
\<close>

datatype event =
    Begin int bool
  | Resume int bool fetch_outcome
  | Render "photo list" bool
  | Preload fetch_outcome
  | Notify "(nat \<times> bool) list"
  | ImgLoaded nat
  | ImgFailed nat
  | Scroll int int int
  | ThrottleTimeout
  | Click

definition watched :: "state \<Rightarrow> nat set" where
  "watched s = (case lazyLoadObserver s of None \<Rightarrow> {} | Some obs \<Rightarrow> obs)"

definition loading :: "state \<Rightarrow> nat list" where
  \<comment> \<open>the targets of the loads under way\<close>
  "loading s = map fst (pending_loads s)"

fun apply_event :: "event \<Rightarrow> state \<Rightarrow> state option" where
  "apply_event (Begin page appendMode) s = Some (loadPhotosPaginated_begin page appendMode s)"
| "apply_event (Resume page appendMode outcome) s =
     (if (page, appendMode) \<in> set (awaiting s)
      then Some (loadPhotosPaginated_resume page appendMode outcome
                   (s\<lparr>awaiting := remove1 (page, appendMode) (awaiting s)\<rparr>))
      else None)"
| "apply_event (Render photosList appendMode) s = Some (renderPhotosOptimized photosList appendMode s)"
| "apply_event (Preload outcome) s = Some (preloadNextPage outcome s)"
| "apply_event (Notify entries) s =
     (if set (map fst entries) \<subseteq> watched s \<and> distinct (map fst entries)
      then Some (observer_callback entries s)
      else None)"
| "apply_event (ImgLoaded k) s =
     (if k < length (pending_loads s)
      then (case pending_loads s ! k of
              (a, src) \<Rightarrow>
                Some (tempImg_onload a src
                        (s\<lparr>pending_loads := take k (pending_loads s) @ drop (Suc k) (pending_loads s)\<rparr>)))
      else None)"
| "apply_event (ImgFailed k) s =
     (if k < length (pending_loads s)
      then (case pending_loads s ! k of
              (a, src) \<Rightarrow>
                Some (tempImg_onerror a
                        (s\<lparr>pending_loads := take k (pending_loads s) @ drop (Suc k) (pending_loads s)\<rparr>)))
      else None)"
| "apply_event (Scroll scrollTop windowHeight documentHeight) s =
     Some (scrollHandler scrollTop windowHeight documentHeight s)"
| "apply_event ThrottleTimeout s = Some (throttle_timeout s)"
| "apply_event Click s =
     (if getElementById ''loadMorePhotosBtn'' (doc s) \<noteq> None then Some (loadMore_onclick s) else None)"

fun run :: "event list \<Rightarrow> state \<Rightarrow> state option" where
  "run [] s = Some s"
| "run (e # es) s = (case apply_event e s of None \<Rightarrow> None | Some s1 \<Rightarrow> run es s1)"

section \<open>What the properties observe\<close>

definition hidden :: "string \<Rightarrow> document \<Rightarrow> bool" where
  \<comment> \<open>the element with the id is not in the document, or its display is none\<close>
  "hidden ident d =
     (case getElementById ident d of None \<Rightarrow> True | Some n \<Rightarrow> display_of n = Some ''none'')"

definition shown :: "string \<Rightarrow> document \<Rightarrow> bool" where
  \<comment> \<open>the element with the id is in the document and its display is block\<close>
  "shown ident d =
     (case getElementById ident d of None \<Rightarrow> False | Some n \<Rightarrow> display_of n = Some ''block'')"

definition photo_elements :: "document \<Rightarrow> node list" where
  \<comment> \<open>the photo items in the wall\<close>
  "photo_elements d = filter is_photo_item (wall_nodes d)"

fun rendered_ids :: "node list \<Rightarrow> string list" where
  \<comment> \<open>the data-id of every photo item of a list of elements\<close>
  "rendered_ids [] = []"
| "rendered_ids (PhotoItem it # ns) = item_id it # rendered_ids ns"
| "rendered_ids (n # ns) = rendered_ids ns"

definition loads_of :: "nat \<Rightarrow> state \<Rightarrow> nat" where
  \<comment> \<open>how many loads are under way for an img\<close>
  "loads_of a s = length (filter (\<lambda>l. fst l = a) (pending_loads s))"

fun fetch_pages :: "(int \<times> bool \<times> listing) list \<Rightarrow> state \<Rightarrow> state" where
  \<comment> \<open>calls of loadPhotosPaginated one after the other, each fetch succeeding\<close>
  "fetch_pages [] s = s"
| "fetch_pages ((page, appendMode, result) # rs) s =
     fetch_pages rs (loadPhotosPaginated page appendMode (Success result) s)"

definition load_started :: "(nat \<Rightarrow> img_elem option) \<Rightarrow> nat \<Rightarrow> (nat \<times> string) list" where
  \<comment> \<open>the load that loadImage starts for an img: none without a deferred source\<close>
  "load_started store a =
     (case store a of
        None \<Rightarrow> []
      | Some img \<Rightarrow> (case deferred_src img of None \<Rightarrow> [] | Some src \<Rightarrow> [(a, src)]))"

fun started :: "(nat \<Rightarrow> img_elem option) \<Rightarrow> (nat \<times> bool) list \<Rightarrow> (nat \<times> string) list" where
  \<comment> \<open>the loads that a report of the observer starts: one for each intersecting entry
      whose target has a deferred source\<close>
  "started store [] = []"
| "started store ((a, isIntersecting) # entries) =
     (if isIntersecting then load_started store a else []) @ started store entries"

definition lazy_view :: "state \<Rightarrow>
    nat set option \<times> (nat \<Rightarrow> img_elem option) \<times> nat \<times> (nat \<times> string) list \<times> node list" where
  \<comment> \<open>the part of the state that lazy loading reads: the observer, the img elements,
      the next address, the loads under way and the photo items of the document\<close>
  "lazy_view s =
     (lazyLoadObserver s, imgs s, next_elem s, pending_loads s,
      filter is_photo_item (all_nodes (doc s)))"

fun fetch_failed :: "fetch_outcome \<Rightarrow> bool" where
  \<comment> \<open>the outcomes that reach the catch block\<close>
  "fetch_failed (NetworkError e) = True"
| "fetch_failed HttpError = True"
| "fetch_failed (BodyError e) = True"
| "fetch_failed (Success result) = False"

definition marking :: "state \<Rightarrow> node \<Rightarrow> node" where
  \<comment> \<open>what the renderer's last loop does to an element: with an observer, a photo item
      gets the class observed; nothing else changes\<close>
  "marking s = (case lazyLoadObserver s of None \<Rightarrow> (\<lambda>n. n) | Some obs \<Rightarrow> mark_observed)"

fun is_scroll :: "event \<Rightarrow> bool" where
  "is_scroll (Scroll scrollTop windowHeight documentHeight) = True"
| "is_scroll ThrottleTimeout = True"
| "is_scroll e = False"

text \<open>
  The states the lazy-load properties are about: those of a page whose photo items all
  come from the renderer of an initialised optimizer. Every photo item with a lazy img
  carries the class observed (or there is no observer); the observed imgs and the
  targets of the loads under way are allocated elements; no img that is being loaded
  is observed; no img is the target of two loads. These hold once initLazyLoad has run
  on a page that has no photo item yet, and every event keeps them.
\<close>

definition wf :: "state \<Rightarrow> bool" where
  "wf s =
     ((lazyLoadObserver s = None \<or> observe_targets (imgs s) (all_nodes (doc s)) = []) \<and>
      (\<forall>a \<in> watched s. a < next_elem s) \<and>
      (\<forall>a \<in> set (loading s). a < next_elem s) \<and>
      (\<forall>a \<in> set (loading s). a \<notin> watched s) \<and>
      distinct (loading s))"

section \<open>Example pages\<close>

definition blank_page :: state where
  \<comment> \<open>a page with an empty wall, the optimizer and the logger as constructed\<close>
  "blank_page =
     \<lparr>lazyLoadObserver = None, currentPage = 1, perPage = 20, isLoading = False,
      hasMore = True, loadedPhotos = {}, currentLevel = 0, logs = [], maxLogs = 500,
      console_out = [], photos = [], baseUrl = ''http://localhost:3000'',
      photoBatchMode = False,
      doc = \<lparr>doc_before = [], photoWall = Some [], doc_after = []\<rparr>,
      imgs = (\<lambda>a. None), next_elem = 0, pending_loads = [], inThrottle = False,
      requests = [], awaiting = [], clock = show_nat, ticks = 0\<rparr>"

definition ready_page :: state where
  \<comment> \<open>the blank page after initLazyLoad in a browser with IntersectionObserver\<close>
  "ready_page = initLazyLoad True blank_page"

definition photo_a :: photo where
  "photo_a = \<lparr>photo_id = ''7'', photo_type = ''image'', photo_message = ''sea'',
               photo_date = ''2024-05-01''\<rparr>"

definition photo_b :: photo where
  "photo_b = \<lparr>photo_id = ''8'', photo_type = ''video'', photo_message = [],
               photo_date = ''2024-05-02''\<rparr>"

definition page_one :: state where
  \<comment> \<open>the ready page after the first page, one image and one video, has arrived\<close>
  "page_one =
     loadPhotosPaginated 1 False
       (Success \<lparr>res_photos = [photo_a, photo_b], res_has_more = True\<rparr>) ready_page"

definition page_loading :: state where
  \<comment> \<open>then the observer reports the image of the first record as intersecting\<close>
  "page_loading = observer_callback [(0, True)] page_one"

section \<open>Lemmas on the document\<close>

lemma find_append_cases:
  "find p (xs @ ys) = (case find p xs of None \<Rightarrow> find p ys | Some x \<Rightarrow> Some x)"
  by (induction xs) auto

lemma find_update_first:
  "(\<And>x. p x \<Longrightarrow> p (f x)) \<Longrightarrow> find p (update_first p f xs) = map_option f (find p xs)"
  by (induction xs) auto

lemma update_first_absent: "find p xs = None \<Longrightarrow> update_first p f xs = xs"
  by (induction xs) (auto split: if_splits)

lemma has_id_set_display [simp]: "has_id ident (set_display v n) = has_id ident n"
  by (cases n) (auto simp: has_id_def)

lemma has_id_set_text [simp]: "has_id ident (set_text v n) = has_id ident n"
  by (cases n) (auto simp: has_id_def)

lemma getElementById_update_element:
  assumes "\<And>n. has_id ident n \<Longrightarrow> has_id ident (f n)"
  shows "getElementById ident (update_element ident f d) = map_option f (getElementById ident d)"
proof (cases "find (has_id ident) (doc_before d)")
  case (Some x)
  then show ?thesis using assms
    by (simp add: getElementById_def update_element_def all_nodes_def wall_nodes_def
        find_append_cases find_update_first)
next
  case None
  note nb = this
  show ?thesis
  proof (cases "find (has_id ident) (wall_nodes d)")
    case (Some y)
    then show ?thesis using assms nb
      by (cases "photoWall d")
         (simp_all add: getElementById_def update_element_def all_nodes_def wall_nodes_def
          find_append_cases find_update_first)
  next
    case None
    then show ?thesis using assms nb
      by (simp add: getElementById_def update_element_def all_nodes_def wall_nodes_def
          find_append_cases find_update_first)
  qed
qed

lemma display_of_set_display:
  "has_id ident n \<Longrightarrow> display_of (set_display v n) = Some v"
  by (cases n) (auto simp: has_id_def)

lemma getElementById_has_id: "getElementById ident d = Some n \<Longrightarrow> has_id ident n"
  unfolding getElementById_def by (metis find_Some_iff)

lemma photoWall_update_element:
  "(photoWall (update_element ident f d) = None) = (photoWall d = None)"
  by (simp add: update_element_def)

lemma photoWall_appendChild:
  "(photoWall (appendChild n d) = None) = (photoWall d = None)"
  by (simp add: appendChild_def split: option.splits)

section \<open>Lemmas on the indicator and the catch and finally blocks\<close>

lemma hideLoadingIndicator_shape:
  "hideLoadingIndicator s = s\<lparr>doc := doc (hideLoadingIndicator s)\<rparr>"
  by (simp add: hideLoadingIndicator_def split: option.splits)

lemma showLoadingIndicator_shape:
  "showLoadingIndicator s = s\<lparr>doc := doc (showLoadingIndicator s)\<rparr>"
  by (simp add: showLoadingIndicator_def split: option.splits)

lemma updateLoadMoreButton_shape:
  "updateLoadMoreButton s = s\<lparr>doc := doc (updateLoadMoreButton s)\<rparr>"
  by (simp add: updateLoadMoreButton_def split: option.splits)

lemma hidden_hideLoadingIndicator:
  "hidden ''photoLoadingIndicator'' (doc (hideLoadingIndicator s))"
  by (auto simp: hidden_def hideLoadingIndicator_def getElementById_update_element
      display_of_set_display dest: getElementById_has_id split: option.splits)

lemma catch_block_shape:
  "catch_block e s =
     s\<lparr>logs := logs (catch_block e s), ticks := ticks (catch_block e s),
       console_out := console_out (catch_block e s)\<rparr>"
  by (simp add: catch_block_def logger_error_def console_error_def addLog_def Let_def)

lemma console_log_shape:
  "console_log args s =
     s\<lparr>logs := logs (console_log args s), ticks := ticks (console_log args s),
       console_out := console_out (console_log args s)\<rparr>"
  by (simp add: logger_debug_def console_log_def addLog_def Let_def)

lemma finally_block_shape:
  "finally_block s = s\<lparr>isLoading := False, doc := doc (finally_block s)\<rparr>"
  by (simp add: finally_block_def hideLoadingIndicator_def split: option.splits)

lemma finally_block_hidden:
  "hidden ''photoLoadingIndicator'' (doc (finally_block s))"
  by (simp add: finally_block_def hidden_hideLoadingIndicator)

lemma resume_failed_shape:
  assumes "fetch_failed outcome"
  shows "\<exists>e. loadPhotosPaginated_resume page appendMode outcome s = finally_block (catch_block e s)"
  using assms by (cases outcome) (auto simp: loadPhotosPaginated_resume_def)

lemma begin_shape:
  "loadPhotosPaginated_begin page appendMode s =
     s\<lparr>isLoading := isLoading (loadPhotosPaginated_begin page appendMode s),
       doc := doc (loadPhotosPaginated_begin page appendMode s),
       requests := requests (loadPhotosPaginated_begin page appendMode s),
       awaiting := awaiting (loadPhotosPaginated_begin page appendMode s)\<rparr>"
  by (simp add: loadPhotosPaginated_begin_def showLoadingIndicator_def Let_def
      split: option.splits)

lemma resume_cleanup:
  "isLoading (loadPhotosPaginated_resume page appendMode outcome s) = False"
  "hidden ''photoLoadingIndicator'' (doc (loadPhotosPaginated_resume page appendMode outcome s))"
   apply (simp add: loadPhotosPaginated_resume_def, subst finally_block_shape, simp)
  apply (simp add: loadPhotosPaginated_resume_def finally_block_hidden)
  done

lemma resume_failure_frame:
  assumes "fetch_failed outcome"
  shows "hasMore (loadPhotosPaginated_resume page appendMode outcome s) = hasMore s"
    and "currentPage (loadPhotosPaginated_resume page appendMode outcome s) = currentPage s"
    and "photos (loadPhotosPaginated_resume page appendMode outcome s) = photos s"
proof -
  obtain e where e: "loadPhotosPaginated_resume page appendMode outcome s = finally_block (catch_block e s)"
    using resume_failed_shape [OF assms] by blast
  have f: "hasMore (finally_block t) = hasMore t" "currentPage (finally_block t) = currentPage t"
    "photos (finally_block t) = photos t" for t
    by (subst finally_block_shape, simp)+
  have c: "hasMore (catch_block e s) = hasMore s" "currentPage (catch_block e s) = currentPage s"
    "photos (catch_block e s) = photos s"
    by (subst catch_block_shape, simp)+
  show "hasMore (loadPhotosPaginated_resume page appendMode outcome s) = hasMore s"
    and "currentPage (loadPhotosPaginated_resume page appendMode outcome s) = currentPage s"
    and "photos (loadPhotosPaginated_resume page appendMode outcome s) = photos s"
    by (simp_all add: e f c)
qed

lemma begin_frame:
  "hasMore (loadPhotosPaginated_begin page appendMode s) = hasMore s"
  "currentPage (loadPhotosPaginated_begin page appendMode s) = currentPage s"
  "photos (loadPhotosPaginated_begin page appendMode s) = photos s"
  by (subst begin_shape, simp)+

text \<open>
  C1. While isLoading is true a call of loadPhotosPaginated returns at once: the state
  after the call is the state before it, so no request is issued and currentPage,
  hasMore, isLoading, the photos list and the document are as they were.
\<close>

theorem C1_call_while_loading_is_noop:
  assumes "isLoading s"
  shows "loadPhotosPaginated page appendMode outcome s = s
       \<and> loadPhotosPaginated_begin page appendMode s = s
       \<and> requests (loadPhotosPaginated page appendMode outcome s) = requests s
       \<and> currentPage (loadPhotosPaginated page appendMode outcome s) = currentPage s
       \<and> hasMore (loadPhotosPaginated page appendMode outcome s) = hasMore s
       \<and> isLoading (loadPhotosPaginated page appendMode outcome s) = isLoading s
       \<and> photos (loadPhotosPaginated page appendMode outcome s) = photos s
       \<and> doc (loadPhotosPaginated page appendMode outcome s) = doc s"
  using assms by (simp add: loadPhotosPaginated_def loadPhotosPaginated_begin_def)

theorem C1_witness:
  "isLoading (blank_page\<lparr>isLoading := True\<rparr>)
   \<and> loadPhotosPaginated 2 True (Success \<lparr>res_photos = [photo_a], res_has_more = False\<rparr>)
       (blank_page\<lparr>isLoading := True\<rparr>) = blank_page\<lparr>isLoading := True\<rparr>
   \<and> requests (loadPhotosPaginated 2 True (Success \<lparr>res_photos = [photo_a], res_has_more = False\<rparr>)
       (blank_page\<lparr>isLoading := True\<rparr>)) = []"
proof -
  have h: "isLoading (blank_page\<lparr>isLoading := True\<rparr>)" by simp
  have r: "requests (blank_page\<lparr>isLoading := True\<rparr>) = []" by (simp add: blank_page_def)
  show ?thesis
    using h r C1_call_while_loading_is_noop [OF h, of 2 True "Success \<lparr>res_photos = [photo_a], res_has_more = False\<rparr>"]
    by simp
qed

text \<open>
  C2. A call of loadPhotosPaginated that starts a fetch: when the fetch fails (fetch
  rejects, the status is not ok, or the body cannot be read) hasMore, currentPage and
  the photos list are those of before the call; whatever the outcome, isLoading is
  false afterwards and the loading indicator is absent or has display none. The same
  holds for the part of the call after the fetch, from whatever state the fetch
  settles in.
\<close>

theorem C2_failure_changes_nothing_and_cleanup_always:
  assumes "\<not> isLoading s"
  shows "(fetch_failed outcome \<longrightarrow>
            hasMore (loadPhotosPaginated page appendMode outcome s) = hasMore s
          \<and> currentPage (loadPhotosPaginated page appendMode outcome s) = currentPage s
          \<and> photos (loadPhotosPaginated page appendMode outcome s) = photos s)
       \<and> isLoading (loadPhotosPaginated page appendMode outcome s) = False
       \<and> hidden ''photoLoadingIndicator'' (doc (loadPhotosPaginated page appendMode outcome s))
       \<and> (fetch_failed outcome \<longrightarrow>
            hasMore (loadPhotosPaginated_resume page appendMode outcome t) = hasMore t
          \<and> currentPage (loadPhotosPaginated_resume page appendMode outcome t) = currentPage t
          \<and> photos (loadPhotosPaginated_resume page appendMode outcome t) = photos t)
       \<and> isLoading (loadPhotosPaginated_resume page appendMode outcome t) = False
       \<and> hidden ''photoLoadingIndicator'' (doc (loadPhotosPaginated_resume page appendMode outcome t))"
  using assms
  by (simp add: loadPhotosPaginated_def Let_def resume_cleanup resume_failure_frame begin_frame)

theorem C2_witness:
  "\<not> isLoading blank_page \<and> fetch_failed HttpError
   \<and> hasMore (loadPhotosPaginated 2 True HttpError blank_page) = True
   \<and> currentPage (loadPhotosPaginated 2 True HttpError blank_page) = 1
   \<and> photos (loadPhotosPaginated 2 True HttpError blank_page) = []
   \<and> isLoading (loadPhotosPaginated 2 True HttpError blank_page) = False
   \<and> hidden ''photoLoadingIndicator'' (doc (loadPhotosPaginated 2 True HttpError blank_page))"
proof -
  have h: "\<not> isLoading blank_page" by (simp add: blank_page_def)
  have v: "hasMore blank_page = True" "currentPage blank_page = 1" "photos blank_page = []"
    by (simp_all add: blank_page_def)
  show ?thesis
    using h v C2_failure_changes_nothing_and_cleanup_always [OF h, of HttpError 2 True blank_page]
    by simp
qed

section \<open>Lemmas on the renderer\<close>

lemma createPhotoItem_state:
  "snd (createPhotoItem p i s) =
     s\<lparr>imgs := imgs (snd (createPhotoItem p i s)), next_elem := Suc (next_elem s)\<rparr>"
  by (simp add: createPhotoItem_def Let_def)

lemma createPhotoItem_imgs:
  "a \<noteq> next_elem s \<Longrightarrow> imgs (snd (createPhotoItem p i s)) a = imgs s a"
  by (simp add: createPhotoItem_def Let_def)

lemma build_fragment_Cons:
  "snd (build_fragment (p # ps) i s) = snd (build_fragment ps (Suc i) (snd (createPhotoItem p i s)))"
  "fst (build_fragment (p # ps) i s) =
     fst (createPhotoItem p i s) # fst (build_fragment ps (Suc i) (snd (createPhotoItem p i s)))"
  by (simp_all split: prod.splits)

lemma state_update_twice:
  "t = s\<lparr>imgs := m1, next_elem := n1\<rparr> \<Longrightarrow> u = t\<lparr>imgs := m2, next_elem := n2\<rparr>
   \<Longrightarrow> u = s\<lparr>imgs := m2, next_elem := n2\<rparr>"
  by simp

lemma build_fragment_state:
  "snd (build_fragment ps i s) =
     s\<lparr>imgs := imgs (snd (build_fragment ps i s)), next_elem := next_elem s + length ps\<rparr>"
proof (induction ps arbitrary: i s)
  case Nil
  show ?case by simp
next
  case (Cons p ps)
  let ?s1 = "snd (createPhotoItem p i s)"
  let ?s2 = "snd (build_fragment ps (Suc i) ?s1)"
  have e1: "?s1 = s\<lparr>imgs := imgs ?s1, next_elem := Suc (next_elem s)\<rparr>"
    by (rule createPhotoItem_state)
  have n1: "next_elem ?s1 = Suc (next_elem s)"
    by (subst e1) simp
  have "?s2 = ?s1\<lparr>imgs := imgs ?s2, next_elem := next_elem ?s1 + length ps\<rparr>"
    by (rule Cons.IH)
  then have e2: "?s2 = ?s1\<lparr>imgs := imgs ?s2, next_elem := next_elem s + length (p # ps)\<rparr>"
    by (simp only: n1 add_Suc list.size add_Suc_right add_0_right One_nat_def)
  show ?case
    unfolding build_fragment_Cons by (rule state_update_twice [OF e1 e2])
qed

lemma build_fragment_imgs:
  "a < next_elem s \<or> next_elem s + length ps \<le> a \<Longrightarrow> imgs (snd (build_fragment ps i s)) a = imgs s a"
proof (induction ps arbitrary: i s)
  case Nil
  show ?case by simp
next
  case (Cons p ps)
  let ?s1 = "snd (createPhotoItem p i s)"
  have n1: "next_elem ?s1 = Suc (next_elem s)"
    by (subst createPhotoItem_state) simp
  have "imgs (snd (build_fragment ps (Suc i) ?s1)) a = imgs ?s1 a"
    using Cons.prems n1 by (intro Cons.IH) auto
  also have "\<dots> = imgs s a"
    using Cons.prems by (intro createPhotoItem_imgs) auto
  finally show ?case by (simp only: build_fragment_Cons)
qed

lemma createPhotoItem_node:
  obtains it where "fst (createPhotoItem p i s) = PhotoItem it" "item_id it = photo_id p"
    "\<not> item_observed it" "item_media it = Picture (next_elem s) \<or> (\<exists>v t. item_media it = Clip v t)"
  by (cases "photo_type p = ''video''") (simp_all add: createPhotoItem_def Let_def)

lemma build_fragment_length: "length (fst (build_fragment ps i s)) = length ps"
  by (induction ps arbitrary: i s) (simp_all add: build_fragment_Cons del: build_fragment.simps(2))

lemma build_fragment_all_items:
  "filter is_photo_item (fst (build_fragment ps i s)) = fst (build_fragment ps i s)"
proof (induction ps arbitrary: i s)
  case Nil
  show ?case by simp
next
  case (Cons p ps)
  obtain it where "fst (createPhotoItem p i s) = PhotoItem it"
    by (rule createPhotoItem_node)
  then show ?case
    by (simp add: build_fragment_Cons Cons.IH del: build_fragment.simps(2))
qed

lemma build_fragment_ids: "rendered_ids (fst (build_fragment ps i s)) = map photo_id ps"
proof (induction ps arbitrary: i s)
  case Nil
  show ?case by simp
next
  case (Cons p ps)
  obtain it where "fst (createPhotoItem p i s) = PhotoItem it" "item_id it = photo_id p"
    by (rule createPhotoItem_node)
  then show ?case
    by (simp add: build_fragment_Cons Cons.IH del: build_fragment.simps(2))
qed

lemma rendered_ids_append: "rendered_ids (xs @ ys) = rendered_ids xs @ rendered_ids ys"
  by (induction xs rule: rendered_ids.induct) auto

lemma rendered_ids_mark: "rendered_ids (map mark_observed xs) = rendered_ids xs"
  by (induction xs rule: rendered_ids.induct) auto

lemma is_photo_item_mark [simp]: "is_photo_item (mark_observed n) = is_photo_item n"
  by (cases n) auto

lemma filter_photo_mark:
  "filter is_photo_item (map mark_observed xs) = map mark_observed (filter is_photo_item xs)"
  by (induction xs) auto

lemma build_fragment_frame:
  "doc (snd (build_fragment ps i s)) = doc s"
  "lazyLoadObserver (snd (build_fragment ps i s)) = lazyLoadObserver s"
  "next_elem (snd (build_fragment ps i s)) = next_elem s + length ps"
  by (subst build_fragment_state, simp)+

lemma render_append_wall:
  assumes "photoWall (doc s) = Some w"
  shows "photoWall (doc (renderPhotosOptimized ps True s)) =
           Some (map (marking s) w @ map (marking s) (fst (build_fragment ps 0 s)))"
  using assms
  by (cases "build_fragment ps 0 s"; cases "lazyLoadObserver s")
     (use build_fragment_frame(1,2) [of ps 0 s] in
       \<open>simp_all add: renderPhotosOptimized_def append_fragment_def observe_new_items_def
          map_nodes_def marking_def\<close>)

lemma is_photo_item_marking [simp]: "is_photo_item (marking s n) = is_photo_item n"
  by (simp add: marking_def split: option.splits)

lemma rendered_ids_marking: "rendered_ids (map (marking s) xs) = rendered_ids xs"
  by (simp add: marking_def rendered_ids_mark split: option.splits)

lemma filter_photo_marking:
  "filter is_photo_item (map (marking s) xs) = map (marking s) (filter is_photo_item xs)"
  by (induction xs) auto

text \<open>
  C5. On a page that has the wall, rendering in append mode keeps every element the wall
  held, in place (a photo item at most gains the class observed), and adds one photo
  item per record after them: the number of photo items is the number before plus the
  number of records.
\<close>

theorem C5_append_keeps_and_adds:
  assumes "photoWall (doc s) = Some w"
  shows "take (length w) (wall_nodes (doc (renderPhotosOptimized ps True s))) = map (marking s) w
       \<and> length (wall_nodes (doc (renderPhotosOptimized ps True s))) = length w + length ps
       \<and> length (photo_elements (doc (renderPhotosOptimized ps True s)))
           = length (photo_elements (doc s)) + length ps
       \<and> rendered_ids (wall_nodes (doc (renderPhotosOptimized ps True s)))
           = rendered_ids w @ map photo_id ps"
  using assms render_append_wall [OF assms, of ps]
  by (simp add: wall_nodes_def photo_elements_def build_fragment_length filter_photo_marking
      build_fragment_all_items rendered_ids_append rendered_ids_marking build_fragment_ids)

theorem C5_witness:
  "photoWall (doc page_one) \<noteq> None
   \<and> length (photo_elements (doc page_one)) = 2
   \<and> length (photo_elements (doc (renderPhotosOptimized [photo_a, photo_b, photo_a] True page_one))) = 5
   \<and> rendered_ids (wall_nodes (doc (renderPhotosOptimized [photo_a, photo_b, photo_a] True page_one)))
       = [''7'', ''8'', ''7'', ''8'', ''7'']"
proof -
  have w: "photoWall (doc page_one) =
      Some [PhotoItem \<lparr>item_index = 0, item_id = ''7'', item_observed = True,
                 item_media = Picture 0, item_caption = ''sea'',
                 item_date = ''2024-05-01'', item_checkbox = ''none''\<rparr>,
             PhotoItem \<lparr>item_index = 1, item_id = ''8'', item_observed = True,
                 item_media = Clip ''http://localhost:3000/api/photos/8/data''
                    ''http://localhost:3000/api/photos/8/thumbnail'',
                 item_caption = [], item_date = ''2024-05-02'', item_checkbox = ''none''\<rparr>,
             LoadMoreBtn ''block'' txt_load_more]"
    by code_simp
  show ?thesis
    using C5_append_keeps_and_adds [OF w, of "[photo_a, photo_b, photo_a]"]
    by (simp add: w photo_elements_def wall_nodes_def photo_a_def photo_b_def)
qed

text \<open>
  C6. On a page that has the wall, rendering the empty list with appendMode false
  leaves the empty-state placeholder as the only child of the wall: no photo item.
\<close>

theorem C6_empty_render_shows_placeholder:
  assumes "photoWall (doc s) \<noteq> None"
  shows "photoWall (doc (renderPhotosOptimized [] False s)) = Some [PhotoEmpty]
       \<and> photo_elements (doc (renderPhotosOptimized [] False s)) = []"
  using assms
  by (auto simp: renderPhotosOptimized_def set_wall_def photo_elements_def wall_nodes_def)

theorem C6_witness:
  "photoWall (doc page_one) \<noteq> None
   \<and> photoWall (doc (renderPhotosOptimized [] False page_one)) = Some [PhotoEmpty]
   \<and> photo_elements (doc (renderPhotosOptimized [] False page_one)) = []"
proof -
  have h: "photoWall (doc page_one) \<noteq> None"
    by code_simp
  show ?thesis
    using h C6_empty_render_shows_placeholder [OF h] by simp
qed

section \<open>Lemmas on the prefetch and the log\<close>

lemma preloadNextPage_shape:
  "preloadNextPage outcome s =
     s\<lparr>requests := requests (preloadNextPage outcome s),
       logs := logs (preloadNextPage outcome s),
       ticks := ticks (preloadNextPage outcome s),
       console_out := console_out (preloadNextPage outcome s)\<rparr>"
  by (cases outcome)
     (simp_all add: preloadNextPage_def console_log_def logger_debug_def addLog_def Let_def)

lemma console_log_requests: "requests (console_log args s) = requests s"
  by (subst console_log_shape) simp

text \<open>
  C10. preloadNextPage leaves currentPage, hasMore, isLoading, the photos list, the
  document, the img elements, the observer and the loads under way as they were. When
  hasMore is false or isLoading is true it changes nothing at all; otherwise it
  requests the listing of currentPage + 1 and, when that arrives, the thumbnail of each
  of its records.
\<close>

theorem C10_preload_never_advances_pagination:
  "currentPage (preloadNextPage outcome s) = currentPage s
   \<and> hasMore (preloadNextPage outcome s) = hasMore s
   \<and> isLoading (preloadNextPage outcome s) = isLoading s
   \<and> photos (preloadNextPage outcome s) = photos s
   \<and> doc (preloadNextPage outcome s) = doc s
   \<and> imgs (preloadNextPage outcome s) = imgs s
   \<and> lazyLoadObserver (preloadNextPage outcome s) = lazyLoadObserver s
   \<and> pending_loads (preloadNextPage outcome s) = pending_loads s
   \<and> awaiting (preloadNextPage outcome s) = awaiting s
   \<and> (\<not> hasMore s \<or> isLoading s \<longrightarrow> preloadNextPage outcome s = s)
   \<and> (hasMore s \<and> \<not> isLoading s \<longrightarrow>
        requests (preloadNextPage outcome s) =
          requests s @ listing_url (baseUrl s) (currentPage s + 1) (perPage s) #
            (case outcome of
               Success result \<Rightarrow> map (\<lambda>p. thumbnail_url (baseUrl s) (photo_id p)) (res_photos result)
             | _ \<Rightarrow> []))"
proof -
  have frame: "currentPage (preloadNextPage outcome s) = currentPage s
   \<and> hasMore (preloadNextPage outcome s) = hasMore s
   \<and> isLoading (preloadNextPage outcome s) = isLoading s
   \<and> photos (preloadNextPage outcome s) = photos s
   \<and> doc (preloadNextPage outcome s) = doc s
   \<and> imgs (preloadNextPage outcome s) = imgs s
   \<and> lazyLoadObserver (preloadNextPage outcome s) = lazyLoadObserver s
   \<and> pending_loads (preloadNextPage outcome s) = pending_loads s
   \<and> awaiting (preloadNextPage outcome s) = awaiting s"
    by (subst preloadNextPage_shape, simp)+
  have idle: "\<not> hasMore s \<or> isLoading s \<longrightarrow> preloadNextPage outcome s = s"
    by (simp add: preloadNextPage_def)
  have reqs: "hasMore s \<and> \<not> isLoading s \<longrightarrow>
        requests (preloadNextPage outcome s) =
          requests s @ listing_url (baseUrl s) (currentPage s + 1) (perPage s) #
            (case outcome of
               Success result \<Rightarrow> map (\<lambda>p. thumbnail_url (baseUrl s) (photo_id p)) (res_photos result)
             | _ \<Rightarrow> [])"
    by (cases outcome) (simp_all add: preloadNextPage_def Let_def console_log_requests)
  from frame idle reqs show ?thesis by blast
qed

theorem C10_witness:
  "hasMore page_one \<and> \<not> isLoading page_one
   \<and> currentPage (preloadNextPage (Success \<lparr>res_photos = [photo_a], res_has_more = False\<rparr>) page_one) = 1
   \<and> doc (preloadNextPage (Success \<lparr>res_photos = [photo_a], res_has_more = False\<rparr>) page_one) = doc page_one
   \<and> requests (preloadNextPage (Success \<lparr>res_photos = [photo_a], res_has_more = False\<rparr>) page_one)
       = [''http://localhost:3000/api/photos?page=1&per_page=20'',
          ''http://localhost:3000/api/photos?page=2&per_page=20'',
          ''http://localhost:3000/api/photos/7/thumbnail'']
   \<and> preloadNextPage HttpError (page_one\<lparr>hasMore := False\<rparr>) = page_one\<lparr>hasMore := False\<rparr>"
proof -
  have h: "hasMore page_one" "\<not> isLoading page_one" "currentPage page_one = 1"
    "requests page_one = [''http://localhost:3000/api/photos?page=1&per_page=20'']"
    "baseUrl page_one = ''http://localhost:3000''" "perPage page_one = 20"
    by code_simp+
  have u: "listing_url ''http://localhost:3000'' 2 20 = ''http://localhost:3000/api/photos?page=2&per_page=20''"
    by code_simp
  show ?thesis
    using h u
      C10_preload_never_advances_pagination [of "Success \<lparr>res_photos = [photo_a], res_has_more = False\<rparr>" page_one]
      C10_preload_never_advances_pagination [of HttpError "page_one\<lparr>hasMore := False\<rparr>"]
    by (simp add: thumbnail_url_def photo_a_def)
qed

lemma filter_items_update_first:
  assumes "\<And>n. is_photo_item (f n) = is_photo_item n" "\<And>n. is_photo_item n \<Longrightarrow> f n = n"
  shows "filter is_photo_item (update_first p f xs) = filter is_photo_item xs"
  using assms by (induction xs) auto

lemma set_display_item [simp]:
  "is_photo_item (set_display v n) = is_photo_item n" "is_photo_item n \<Longrightarrow> set_display v n = n"
  by (cases n; simp)+

lemma set_text_item [simp]:
  "is_photo_item (set_text v n) = is_photo_item n" "is_photo_item n \<Longrightarrow> set_text v n = n"
  by (cases n; simp)+







lemma catch_block_doc: "doc (catch_block e s) = doc s"
  by (subst catch_block_shape) simp

lemma catch_block_frame:
  "next_elem (catch_block e s) = next_elem s" "imgs (catch_block e s) = imgs s"
  by (subst catch_block_shape, simp)+






section \<open>Lemmas on lazy loading\<close>

lemma observe_targets_append:
  "observe_targets m (xs @ ys) = observe_targets m xs @ observe_targets m ys"
  by (induction m xs rule: observe_targets.induct) (auto split: option.splits)

lemma observe_targets_items:
  "observe_targets m (filter is_photo_item ns) = observe_targets m ns"
  by (induction m ns rule: observe_targets.induct) (auto split: option.splits)

lemma observe_targets_marked: "observe_targets m (map mark_observed ns) = []"
  by (induction m ns rule: observe_targets.induct) auto

lemma observe_targets_store:
  "a \<in> set (observe_targets m' ns) \<Longrightarrow> a \<in> set (observe_targets m ns) \<or> m' a \<noteq> m a"
  by (induction m' ns rule: observe_targets.induct)
     (auto simp: lazy_img_def split: option.splits media.splits if_splits)

lemma observe_targets_same_src:
  assumes "\<And>a. map_option data_src (m' a) = map_option data_src (m a)"
  shows "observe_targets m' ns = observe_targets m ns"
proof -
  have "lazy_img m' it = lazy_img m it" for it
  proof (cases "item_media it")
    case (Picture a)
    then show ?thesis
      using assms [of a] by (cases "m a"; cases "m' a") (auto simp: lazy_img_def)
  next
    case (Clip v t)
    then show ?thesis by (simp add: lazy_img_def)
  qed
  then show ?thesis
    by (induction m ns rule: observe_targets.induct) (auto split: option.splits)
qed

lemma observe_targets_fragment:
  "a \<in> set (observe_targets m (fst (build_fragment ps i s)))
   \<Longrightarrow> next_elem s \<le> a \<and> a < next_elem s + length ps"
proof (induction ps arbitrary: i s)
  case Nil
  then show ?case by simp
next
  case (Cons p ps)
  let ?s1 = "snd (createPhotoItem p i s)"
  obtain it where it: "fst (createPhotoItem p i s) = PhotoItem it"
    "item_media it = Picture (next_elem s) \<or> (\<exists>v t. item_media it = Clip v t)"
    by (rule createPhotoItem_node)
  have n1: "next_elem ?s1 = Suc (next_elem s)"
    by (subst createPhotoItem_state) simp
  from Cons.prems
  have "a \<in> set (observe_targets m [PhotoItem it])
        \<or> a \<in> set (observe_targets m (fst (build_fragment ps (Suc i) ?s1)))"
    by (simp only: build_fragment_Cons it(1)) (auto split: if_splits option.splits)
  then show ?case
  proof
    assume "a \<in> set (observe_targets m [PhotoItem it])"
    then have "a = next_elem s"
      using it(2) by (auto simp: lazy_img_def split: if_splits option.splits)
    then show ?thesis by simp
  next
    assume "a \<in> set (observe_targets m (fst (build_fragment ps (Suc i) ?s1)))"
    from Cons.IH [OF this] show ?thesis by (simp add: n1)
  qed
qed

lemma all_nodes_map_nodes: "all_nodes (map_nodes f d) = map f (all_nodes d)"
  by (cases "photoWall d") (simp_all add: all_nodes_def map_nodes_def wall_nodes_def)

lemma items_update_element:
  assumes "\<And>n. is_photo_item (f n) = is_photo_item n" "\<And>n. is_photo_item n \<Longrightarrow> f n = n"
  shows "filter is_photo_item (all_nodes (update_element ident f d)) = filter is_photo_item (all_nodes d)"
  using assms
  by (cases "photoWall d")
     (simp_all add: all_nodes_def update_element_def wall_nodes_def filter_items_update_first)

lemma items_appendChild:
  "\<not> is_photo_item n \<Longrightarrow>
     filter is_photo_item (all_nodes (appendChild n d)) = filter is_photo_item (all_nodes d)"
  by (simp add: all_nodes_def appendChild_def wall_nodes_def split: option.splits)

lemma items_showLoadingIndicator:
  "filter is_photo_item (all_nodes (doc (showLoadingIndicator s))) = filter is_photo_item (all_nodes (doc s))"
  by (simp add: showLoadingIndicator_def items_update_element items_appendChild
      split: option.splits)

lemma items_hideLoadingIndicator:
  "filter is_photo_item (all_nodes (doc (hideLoadingIndicator s))) = filter is_photo_item (all_nodes (doc s))"
  by (simp add: hideLoadingIndicator_def items_update_element split: option.splits)

lemma items_updateLoadMoreButton:
  "filter is_photo_item (all_nodes (doc (updateLoadMoreButton s))) = filter is_photo_item (all_nodes (doc s))"
  by (simp add: updateLoadMoreButton_def items_update_element items_appendChild
      split: option.splits)

lemma lazy_view_showLoadingIndicator: "lazy_view (showLoadingIndicator s) = lazy_view s"
  unfolding lazy_view_def items_showLoadingIndicator
  by (subst (1 2 3 4) showLoadingIndicator_shape) simp

lemma lazy_view_hideLoadingIndicator: "lazy_view (hideLoadingIndicator s) = lazy_view s"
  unfolding lazy_view_def items_hideLoadingIndicator
  by (subst (1 2 3 4) hideLoadingIndicator_shape) simp

lemma lazy_view_updateLoadMoreButton: "lazy_view (updateLoadMoreButton s) = lazy_view s"
  unfolding lazy_view_def items_updateLoadMoreButton
  by (subst (1 2 3 4) updateLoadMoreButton_shape) simp

lemma lazy_view_catch_block: "lazy_view (catch_block e s) = lazy_view s"
  by (simp add: lazy_view_def catch_block_def logger_error_def console_error_def addLog_def Let_def)

lemma lazy_view_finally_block: "lazy_view (finally_block s) = lazy_view (s\<lparr>isLoading := False\<rparr>)"
  by (simp add: finally_block_def lazy_view_hideLoadingIndicator)

lemma lazy_view_begin: "lazy_view (loadPhotosPaginated_begin page appendMode s) = lazy_view s"
proof (cases "isLoading s")
  case True
  then show ?thesis by (simp add: loadPhotosPaginated_begin_def)
next
  case False
  have "lazy_view (loadPhotosPaginated_begin page appendMode s)
          = lazy_view (showLoadingIndicator (s\<lparr>isLoading := True\<rparr>))"
    using False by (simp add: loadPhotosPaginated_begin_def Let_def lazy_view_def)
  then show ?thesis
    by (simp add: lazy_view_showLoadingIndicator) (simp add: lazy_view_def)
qed

lemma lazy_view_preloadNextPage: "lazy_view (preloadNextPage outcome s) = lazy_view s"
  by (subst preloadNextPage_shape) (simp add: lazy_view_def)

lemma lazy_view_scrollHandler:
  "lazy_view (scrollHandler scrollTop windowHeight documentHeight s) = lazy_view s"
proof -
  have "lazy_view (t\<lparr>inThrottle := True\<rparr>) = lazy_view t" for t
    by (simp add: lazy_view_def)
  then show ?thesis
    by (simp add: scrollHandler_def scroll_check_def lazy_view_begin)
qed

lemma lazy_view_onclick: "lazy_view (loadMore_onclick s) = lazy_view s"
  by (simp add: loadMore_onclick_def lazy_view_begin)

lemma wf_view:
  assumes "lazy_view t = lazy_view s"
  shows "wf t = wf s"
proof -
  have f: "lazyLoadObserver t = lazyLoadObserver s" "imgs t = imgs s" "next_elem t = next_elem s"
    "pending_loads t = pending_loads s"
    "filter is_photo_item (all_nodes (doc t)) = filter is_photo_item (all_nodes (doc s))"
    using assms by (simp_all add: lazy_view_def)
  have "observe_targets (imgs t) (all_nodes (doc t))
          = observe_targets (imgs t) (filter is_photo_item (all_nodes (doc t)))"
    by (simp add: observe_targets_items)
  also have "\<dots> = observe_targets (imgs s) (all_nodes (doc s))"
    by (simp add: f observe_targets_items)
  finally show ?thesis
    by (simp add: wf_def watched_def loading_def f)
qed

lemma view_fields:
  assumes "lazy_view t = lazy_view s"
  shows "watched t = watched s" "loading t = loading s" "imgs t = imgs s"
    "next_elem t = next_elem s" "loads_of a t = loads_of a s" "pending_loads t = pending_loads s"
    "lazyLoadObserver t = lazyLoadObserver s"
  using assms by (simp_all add: lazy_view_def watched_def loading_def loads_of_def)

lemma frame4_trans:
  "t = s\<lparr>lazyLoadObserver := a1, doc := a2, imgs := a3, next_elem := a4\<rparr>
   \<Longrightarrow> u = t\<lparr>lazyLoadObserver := b1, doc := b2, imgs := b3, next_elem := b4\<rparr>
   \<Longrightarrow> u = s\<lparr>lazyLoadObserver := b1, doc := b2, imgs := b3, next_elem := b4\<rparr>"
  by simp

lemma set_wall_shape:
  "set_wall ns s =
     s\<lparr>lazyLoadObserver := lazyLoadObserver (set_wall ns s), doc := doc (set_wall ns s),
       imgs := imgs (set_wall ns s), next_elem := next_elem (set_wall ns s)\<rparr>"
  by (simp add: set_wall_def)

lemma append_fragment_shape:
  "append_fragment f s =
     s\<lparr>lazyLoadObserver := lazyLoadObserver (append_fragment f s), doc := doc (append_fragment f s),
       imgs := imgs (append_fragment f s), next_elem := next_elem (append_fragment f s)\<rparr>"
  by (simp add: append_fragment_def)

lemma observe_new_items_shape:
  "observe_new_items s =
     s\<lparr>lazyLoadObserver := lazyLoadObserver (observe_new_items s), doc := doc (observe_new_items s),
       imgs := imgs (observe_new_items s), next_elem := next_elem (observe_new_items s)\<rparr>"
  by (simp add: observe_new_items_def split: option.splits)

lemma build_fragment_shape:
  "snd (build_fragment ps i s) =
     s\<lparr>lazyLoadObserver := lazyLoadObserver (snd (build_fragment ps i s)),
       doc := doc (snd (build_fragment ps i s)),
       imgs := imgs (snd (build_fragment ps i s)),
       next_elem := next_elem (snd (build_fragment ps i s))\<rparr>"
  by (simp add: build_fragment_frame) (rule build_fragment_state)

lemma renderPhotosOptimized_shape:
  "renderPhotosOptimized ps appendMode s =
     s\<lparr>lazyLoadObserver := lazyLoadObserver (renderPhotosOptimized ps appendMode s),
       doc := doc (renderPhotosOptimized ps appendMode s),
       imgs := imgs (renderPhotosOptimized ps appendMode s),
       next_elem := next_elem (renderPhotosOptimized ps appendMode s)\<rparr>"
proof (cases "photoWall (doc s)")
  case None
  then show ?thesis by (simp add: renderPhotosOptimized_def)
next
  case (Some w)
  let ?s0 = "if \<not> appendMode then set_wall [] s else s"
  have s0: "?s0 = s\<lparr>lazyLoadObserver := lazyLoadObserver ?s0, doc := doc ?s0,
                      imgs := imgs ?s0, next_elem := next_elem ?s0\<rparr>"
    by (simp add: set_wall_def)
  show ?thesis
  proof (cases "ps = [] \<and> \<not> appendMode")
    case True
    have "renderPhotosOptimized ps appendMode s = set_wall [PhotoEmpty] ?s0"
      using True Some by (simp add: renderPhotosOptimized_def)
    then show ?thesis
      using frame4_trans [OF s0 set_wall_shape [of "[PhotoEmpty]" ?s0]] by simp
  next
    case False
    let ?s1 = "snd (build_fragment ps 0 ?s0)"
    let ?s2 = "append_fragment (fst (build_fragment ps 0 ?s0)) ?s1"
    have r: "renderPhotosOptimized ps appendMode s = observe_new_items ?s2"
    proof (cases appendMode)
      case True
      then show ?thesis
        using Some by (simp add: renderPhotosOptimized_def Let_def split: prod.splits)
    next
      case na: False
      with False have "ps \<noteq> []" by simp
      then show ?thesis
        using Some na by (simp add: renderPhotosOptimized_def Let_def split: prod.splits)
    qed
    note a = frame4_trans [OF s0 build_fragment_shape [of ps 0 ?s0]]
    note b = frame4_trans [OF a append_fragment_shape [of "fst (build_fragment ps 0 ?s0)" ?s1]]
    note c = frame4_trans [OF b observe_new_items_shape [of ?s2]]
    show ?thesis unfolding r by (rule c)
  qed
qed

lemma renderPhotosOptimized_frame:
  "pending_loads (renderPhotosOptimized ps appendMode s) = pending_loads s"
  "loadedPhotos (renderPhotosOptimized ps appendMode s) = loadedPhotos s"
  "hasMore (renderPhotosOptimized ps appendMode s) = hasMore s"
  "isLoading (renderPhotosOptimized ps appendMode s) = isLoading s"
  "currentPage (renderPhotosOptimized ps appendMode s) = currentPage s"
  "requests (renderPhotosOptimized ps appendMode s) = requests s"
  "awaiting (renderPhotosOptimized ps appendMode s) = awaiting s"
  "inThrottle (renderPhotosOptimized ps appendMode s) = inThrottle s"
  by (subst renderPhotosOptimized_shape, simp)+

lemma render_empty_view:
  assumes "photoWall (doc s) = Some w"
  shows "lazyLoadObserver (set_wall [PhotoEmpty] (set_wall [] s)) = lazyLoadObserver s"
    and "imgs (set_wall [PhotoEmpty] (set_wall [] s)) = imgs s"
    and "next_elem (set_wall [PhotoEmpty] (set_wall [] s)) = next_elem s"
    and "observe_targets m (all_nodes (doc s)) = [] \<Longrightarrow>
         observe_targets m (all_nodes (doc (set_wall [PhotoEmpty] (set_wall [] s)))) = []"
  using assms
  by (simp_all add: set_wall_def all_nodes_def wall_nodes_def observe_targets_append)

lemma render_new_targets:
  assumes wall: "photoWall (doc s) = Some w"
    and J: "observe_targets (imgs s) (all_nodes (doc s)) = []"
    and s0: "s0 = (if \<not> appendMode then set_wall [] s else s)"
    and a: "a \<in> set (observe_targets (imgs (snd (build_fragment ps 0 s0)))
              (all_nodes (doc (append_fragment (fst (build_fragment ps 0 s0)) (snd (build_fragment ps 0 s0))))))"
  shows "next_elem s \<le> a \<and> a < next_elem s + length ps"
proof -
  let ?F = "fst (build_fragment ps 0 s0)"
  let ?s1 = "snd (build_fragment ps 0 s0)"
  let ?w0 = "if appendMode then w else []"
  have n0: "next_elem s0 = next_elem s" and i0: "imgs s0 = imgs s"
    by (simp_all add: s0 set_wall_def)
  have d0: "doc s0 = (doc s)\<lparr>photoWall := Some ?w0\<rparr>"
    using wall by (simp add: s0 set_wall_def)
  have d1: "doc ?s1 = doc s0"
    by (rule build_fragment_frame)
  have nodes: "all_nodes (doc (append_fragment ?F ?s1)) = doc_before (doc s) @ ?w0 @ ?F @ doc_after (doc s)"
    by (simp add: append_fragment_def d1 d0 all_nodes_def wall_nodes_def)
  have old: "observe_targets (imgs s) (doc_before (doc s)) = []"
    "observe_targets (imgs s) ?w0 = []" "observe_targets (imgs s) (doc_after (doc s)) = []"
    using J wall by (simp_all add: all_nodes_def wall_nodes_def observe_targets_append)
  from a have "a \<in> set (observe_targets (imgs ?s1) (doc_before (doc s)))
      \<or> a \<in> set (observe_targets (imgs ?s1) ?w0)
      \<or> a \<in> set (observe_targets (imgs ?s1) ?F)
      \<or> a \<in> set (observe_targets (imgs ?s1) (doc_after (doc s)))"
    unfolding nodes observe_targets_append by auto
  then consider (changed) "imgs ?s1 a \<noteq> imgs s a"
    | (fresh) "a \<in> set (observe_targets (imgs ?s1) ?F)"
    using old observe_targets_store [of a "imgs ?s1" _ "imgs s"]
    by (metis empty_iff empty_set)
  then show ?thesis
  proof cases
    case changed
    then have "\<not> (a < next_elem s0 \<or> next_elem s0 + length ps \<le> a)"
      using build_fragment_imgs [of a s0 ps 0] by (auto simp: i0)
    then show ?thesis by (simp add: n0)
  next
    case fresh
    from observe_targets_fragment [OF this] show ?thesis by (simp add: n0)
  qed
qed

lemma render_step:
  assumes "wf s"
  shows "wf (renderPhotosOptimized ps appendMode s)"
    and "next_elem s \<le> next_elem (renderPhotosOptimized ps appendMode s)"
    and "a < next_elem s \<Longrightarrow> imgs (renderPhotosOptimized ps appendMode s) a = imgs s a"
    and "a < next_elem s \<Longrightarrow> a \<in> watched (renderPhotosOptimized ps appendMode s) \<Longrightarrow> a \<in> watched s"
proof -
  let ?R = "renderPhotosOptimized ps appendMode s"
  have pl: "pending_loads ?R = pending_loads s"
    by (rule renderPhotosOptimized_frame)
  have all: "wf ?R \<and> next_elem s \<le> next_elem ?R
      \<and> (\<forall>a < next_elem s. imgs ?R a = imgs s a \<and> (a \<in> watched ?R \<longrightarrow> a \<in> watched s))"
  proof (cases "photoWall (doc s)")
    case None
    then have "?R = s" by (simp add: renderPhotosOptimized_def)
    with assms show ?thesis by simp
  next
    case (Some w)
    show ?thesis
    proof (cases "ps = [] \<and> \<not> appendMode")
      case True
      then have r: "?R = set_wall [PhotoEmpty] (set_wall [] s)"
        using Some by (simp add: renderPhotosOptimized_def)
      note v = render_empty_view [OF Some, folded r]
      have "wf ?R"
        using assms v(4) [of "imgs s"] by (auto simp: wf_def watched_def loading_def v(1,2,3) pl)
      then show ?thesis
        by (simp add: v watched_def)
    next
      case False
      define s0 where "s0 = (if \<not> appendMode then set_wall [] s else s)"
      let ?F = "fst (build_fragment ps 0 s0)"
      let ?s1 = "snd (build_fragment ps 0 s0)"
      let ?s2 = "append_fragment ?F ?s1"
      have r: "?R = observe_new_items ?s2"
      proof (cases appendMode)
        case True
        then show ?thesis
          using Some by (simp add: renderPhotosOptimized_def s0_def Let_def split: prod.splits)
      next
        case na: False
        with False have "ps \<noteq> []" by simp
        then show ?thesis
          using Some na by (simp add: renderPhotosOptimized_def s0_def Let_def split: prod.splits)
      qed
      have n0: "next_elem s0 = next_elem s" and i0: "imgs s0 = imgs s"
        and o0: "lazyLoadObserver s0 = lazyLoadObserver s"
        by (simp_all add: s0_def set_wall_def)
      have n2: "next_elem ?s2 = next_elem s + length ps"
        by (simp add: append_fragment_def build_fragment_frame n0)
      have o2: "lazyLoadObserver ?s2 = lazyLoadObserver s"
        by (simp add: append_fragment_def build_fragment_frame o0)
      have i2: "imgs ?s2 = imgs ?s1"
        by (simp add: append_fragment_def)
      have keep: "imgs ?s1 a = imgs s a" if "a < next_elem s" for a
        using that build_fragment_imgs [of a s0 ps 0] by (simp add: n0 i0)
      show ?thesis
      proof (cases "lazyLoadObserver s")
        case None
        then have "?R = ?s2"
          by (simp add: r observe_new_items_def o2)
        then have f: "lazyLoadObserver ?R = None" "next_elem ?R = next_elem s + length ps"
          "imgs ?R = imgs ?s1"
          by (simp_all add: o2 None n2 i2)
        have "wf ?R"
          using assms by (auto simp: wf_def watched_def loading_def f pl None)
        then show ?thesis
          by (simp add: f keep watched_def)
      next
        case (Some obs)
        let ?T = "observe_targets (imgs ?s1) (all_nodes (doc ?s2))"
        have f: "lazyLoadObserver ?R = Some (obs \<union> set ?T)" "next_elem ?R = next_elem s + length ps"
          "imgs ?R = imgs ?s1" "doc ?R = map_nodes mark_observed (doc ?s2)"
          by (simp_all add: r observe_new_items_def o2 Some n2 i2)
        have J: "observe_targets (imgs s) (all_nodes (doc s)) = []"
          using assms Some by (simp add: wf_def)
        have new: "next_elem s \<le> a \<and> a < next_elem s + length ps" if "a \<in> set ?T" for a
          using render_new_targets [OF \<open>photoWall (doc s) = Some w\<close> J s0_def that] .
        have "wf ?R"
          using assms new
          by (fastforce simp: wf_def watched_def loading_def f pl Some all_nodes_map_nodes
              observe_targets_marked)
        moreover have "\<forall>a < next_elem s. a \<in> watched ?R \<longrightarrow> a \<in> watched s"
          using new by (fastforce simp: watched_def f Some)
        ultimately show ?thesis
          by (simp add: f keep)
      qed
    qed
  qed
  from all show "wf ?R" "next_elem s \<le> next_elem ?R"
    "a < next_elem s \<Longrightarrow> imgs ?R a = imgs s a"
    "a < next_elem s \<Longrightarrow> a \<in> watched ?R \<Longrightarrow> a \<in> watched s"
    by blast+
qed

lemma load_started_cases:
  obtains (none) "load_started m a = []"
  | (one) src where "load_started m a = [(a, src)]"
proof (cases "m a")
  case None
  then have "load_started m a = []" by (simp add: load_started_def)
  then show ?thesis by (rule none)
next
  case (Some img)
  show ?thesis
  proof (cases "deferred_src img")
    case None
    with Some have "load_started m a = []" by (simp add: load_started_def)
    then show ?thesis by (rule none)
  next
    case (Some src)
    with \<open>m a = Some img\<close> have "load_started m a = [(a, src)]" by (simp add: load_started_def)
    then show ?thesis by (rule one)
  qed
qed

lemma loadImage_effect:
  "loadImage a s =
     s\<lparr>pending_loads := pending_loads s @ load_started (imgs s) a,
       requests := requests s @ map snd (load_started (imgs s) a)\<rparr>"
proof (cases "imgs s a")
  case None
  then show ?thesis by (simp add: loadImage_def load_started_def)
next
  case (Some img)
  then show ?thesis
    by (cases "deferred_src img") (simp_all add: loadImage_def load_started_def)
qed

lemma loadImage_unobserve:
  "unobserve a (loadImage a s) =
     s\<lparr>lazyLoadObserver := map_option (\<lambda>obs. obs - {a}) (lazyLoadObserver s),
       pending_loads := pending_loads s @ started (imgs s) [(a, True)],
       requests := requests s @ map snd (started (imgs s) [(a, True)])\<rparr>"
  by (subst loadImage_effect) (simp add: unobserve_def)

lemma observer_callback_effect:
  "observer_callback entries s =
     s\<lparr>lazyLoadObserver :=
         map_option (\<lambda>obs. obs - {a. (a, True) \<in> set entries}) (lazyLoadObserver s),
       pending_loads := pending_loads s @ started (imgs s) entries,
       requests := requests s @ map snd (started (imgs s) entries)\<rparr>"
proof (induction entries arbitrary: s)
  case Nil
  have "(\<lambda>obs::nat set. obs - {}) = (\<lambda>obs. obs)" by auto
  then show ?case by (simp add: option.map_ident)
next
  case (Cons e entries)
  obtain a b where e: "e = (a, b)" by (cases e)
  show ?case
  proof (cases b)
    case False
    have "{x. (x, True) \<in> set (e # entries)} = {x. (x, True) \<in> set entries}"
      using False e by auto
    then show ?thesis
      using False e by (simp add: Cons.IH)
  next
    case True
    have "(\<lambda>obs::nat set. obs - {a} - {x. (x, True) \<in> set entries})
            = (\<lambda>obs. obs - {x. (x, True) \<in> set (e # entries)})"
      using True e by auto
    then show ?thesis
      using True e
      by (simp add: Cons.IH loadImage_unobserve option.map_comp comp_def)
  qed
qed

lemma observer_callback_watched:
  "watched (observer_callback entries s) = watched s - {a. (a, True) \<in> set entries}"
  by (subst observer_callback_effect) (simp add: watched_def split: option.splits)

lemma started_targets: "a \<in> set (map fst (started m entries)) \<Longrightarrow> (a, True) \<in> set entries"
proof (induction entries)
  case Nil
  then show ?case by simp
next
  case (Cons e entries)
  obtain x b where e: "e = (x, b)" by (cases e)
  show ?case
  proof (cases b)
    case False
    with Cons show ?thesis by (simp add: e)
  next
    case True
    from load_started_cases [of m x] Cons True show ?thesis
      by cases (auto simp: e)
  qed
qed

lemma started_distinct: "distinct (map fst entries) \<Longrightarrow> distinct (map fst (started m entries))"
proof (induction entries)
  case Nil
  show ?case by simp
next
  case (Cons e entries)
  obtain x b where e: "e = (x, b)" by (cases e)
  have nx: "x \<notin> set (map fst (started m entries))"
    using started_targets [of x m entries] Cons.prems by (force simp: e image_iff)
  show ?case
  proof (cases b)
    case False
    with Cons show ?thesis by (simp add: e)
  next
    case True
    from load_started_cases [of m x] Cons True nx show ?thesis
      by cases (auto simp: e)
  qed
qed

lemma started_single:
  "imgs s a = Some i \<Longrightarrow> deferred_src i = Some src \<Longrightarrow> started (imgs s) [(a, True)] = [(a, src)]"
  by (simp add: load_started_def)

lemma observer_callback_step:
  assumes "wf s" and "set (map fst entries) \<subseteq> watched s" and "distinct (map fst entries)"
  shows "wf (observer_callback entries s)"
proof -
  let ?t = "observer_callback entries s"
  let ?new = "map fst (started (imgs s) entries)"
  have f: "imgs ?t = imgs s" "next_elem ?t = next_elem s" "doc ?t = doc s"
    "loading ?t = loading s @ ?new"
    "(lazyLoadObserver ?t = None) = (lazyLoadObserver s = None)"
    by (subst observer_callback_effect, simp add: loading_def)+
  have w: "watched ?t = watched s - {a. (a, True) \<in> set entries}"
    by (rule observer_callback_watched)
  have sub: "(a, True) \<in> set entries" if "a \<in> set ?new" for a
    using that by (rule started_targets)
  have sub2: "set ?new \<subseteq> watched s"
    using sub assms(2) by force
  have "distinct (loading s @ ?new)"
    using assms(1) started_distinct [OF assms(3), of "imgs s"] sub2
    by (auto simp: wf_def)
  moreover have "\<forall>a \<in> set (loading s @ ?new). a < next_elem s \<and> a \<notin> watched ?t"
    using assms(1) sub sub2 by (auto simp: wf_def w)
  ultimately show ?thesis
    using assms(1) by (auto simp: wf_def f w)
qed

lemma observer_callback_other:
  assumes "set (map fst entries) \<subseteq> watched s" and "a \<notin> watched s"
  shows "loads_of a (observer_callback entries s) = loads_of a s"
proof -
  have "a \<notin> set (map fst (started (imgs s) entries))"
    using started_targets [of a "imgs s" entries] assms by force
  then have "filter (\<lambda>l. fst l = a) (started (imgs s) entries) = []"
    by (auto simp: filter_empty_conv)
  then show ?thesis
    by (subst observer_callback_effect) (simp add: loads_of_def)
qed

lemma tempImg_onload_effect:
  "imgs (tempImg_onload a src s) b = (if b = a then map_option (\<lambda>i. i\<lparr>img_src := src, img_loaded := True, img_opacity := ''1''\<rparr>) (imgs s a) else imgs s b)"
  "tempImg_onload a src s = s\<lparr>imgs := imgs (tempImg_onload a src s)\<rparr>"
  by (simp_all add: tempImg_onload_def split: option.splits)

lemma tempImg_onerror_effect:
  "imgs (tempImg_onerror a s) b = (if b = a then map_option (\<lambda>i. i\<lparr>img_src := fallback_src\<rparr>) (imgs s a) else imgs s b)"
  "tempImg_onerror a s = s\<lparr>imgs := imgs (tempImg_onerror a s)\<rparr>"
  by (simp_all add: tempImg_onerror_def split: option.splits)

lemma wf_finished:
  assumes "wf s" and "k < length (pending_loads s)"
    and "t = u\<lparr>imgs := m\<rparr>"
    and "u = s\<lparr>pending_loads := take k (pending_loads s) @ drop (Suc k) (pending_loads s)\<rparr>"
    and "\<And>b. map_option data_src (m b) = map_option data_src (imgs s b)"
  shows "wf t"
proof -
  have l: "loading t = take k (loading s) @ drop (Suc k) (loading s)"
    by (simp add: assms(3,4) loading_def take_map drop_map)
  have sub: "set (loading t) \<subseteq> set (loading s)"
    unfolding l using set_take_subset [of k "loading s"] set_drop_subset [of "Suc k" "loading s"]
    by auto
  have d: "distinct (loading t)" if "distinct (loading s)"
  proof -
    have "distinct (take k (loading s) @ drop k (loading s))"
      using that by simp
    then have "distinct (take k (loading s) @ drop (Suc k) (loading s))"
      by (metis Cons_nth_drop_Suc distinct.simps(2) distinct_append assms(2) length_map
          loading_def disjoint_insert(1) list.simps(15))
    then show ?thesis by (simp add: l)
  qed
  have f: "lazyLoadObserver t = lazyLoadObserver s" "next_elem t = next_elem s" "doc t = doc s"
    "imgs t = m" "watched t = watched s"
    by (simp_all add: assms(3,4) watched_def)
  have "observe_targets m ns = observe_targets (imgs s) ns" for ns
    by (rule observe_targets_same_src) (rule assms(5))
  then show ?thesis
    using assms(1) sub d by (auto simp: wf_def f)
qed

section \<open>Every event keeps the invariant\<close>

lemma lazy_view_update [simp]:
  "lazy_view (s\<lparr>isLoading := b\<rparr>) = lazy_view s"
  "lazy_view (s\<lparr>awaiting := aw\<rparr>) = lazy_view s"
  "lazy_view (s\<lparr>inThrottle := b\<rparr>) = lazy_view s"
  "lazy_view (s\<lparr>photos := ph, hasMore := hm, currentPage := cp\<rparr>) = lazy_view s"
  by (simp_all add: lazy_view_def)

lemma lazy_view_resume_failed:
  assumes "fetch_failed outcome"
  shows "lazy_view (loadPhotosPaginated_resume page appendMode outcome s) = lazy_view s"
proof -
  obtain e where "loadPhotosPaginated_resume page appendMode outcome s = finally_block (catch_block e s)"
    using resume_failed_shape [OF assms] by blast
  then show ?thesis
    by (simp add: lazy_view_finally_block) (simp add: lazy_view_def catch_block_frame
        catch_block_doc catch_block_def logger_error_def console_error_def addLog_def Let_def)
qed

lemma lazy_view_resume_success:
  "lazy_view (loadPhotosPaginated_resume page appendMode (Success result) s) =
   lazy_view (renderPhotosOptimized (res_photos result) appendMode
     (s\<lparr>photos := (if appendMode then photos s @ res_photos result else res_photos result),
        hasMore := res_has_more result, currentPage := page\<rparr>))"
  by (simp add: loadPhotosPaginated_resume_def lazy_view_finally_block
      lazy_view_updateLoadMoreButton)

lemma step_of_view:
  assumes "lazy_view t = lazy_view s" and "wf s"
  shows "wf t \<and> next_elem s \<le> next_elem t \<and>
         (\<forall>a. a < next_elem s \<and> a \<notin> watched s \<longrightarrow>
            a \<notin> watched t \<and> loads_of a t \<le> loads_of a s \<and> imgs t a = imgs s a)"
  using assms wf_view [OF assms(1)] view_fields [OF assms(1)] by simp

lemma step_of_render:
  assumes "wf s"
  shows "wf (renderPhotosOptimized ps appendMode s)
       \<and> next_elem s \<le> next_elem (renderPhotosOptimized ps appendMode s)
       \<and> (\<forall>a. a < next_elem s \<and> a \<notin> watched s \<longrightarrow>
            a \<notin> watched (renderPhotosOptimized ps appendMode s)
          \<and> loads_of a (renderPhotosOptimized ps appendMode s) \<le> loads_of a s
          \<and> imgs (renderPhotosOptimized ps appendMode s) a = imgs s a)"
  using render_step [OF assms, where ps = ps and appendMode = appendMode]
  by (auto simp: loads_of_def renderPhotosOptimized_frame)

lemma filter_remove_nth:
  "length (filter p (take k xs @ drop (Suc k) xs)) \<le> length (filter p xs)"
proof -
  have "length (filter p (drop (Suc k) xs)) \<le> length (filter p (drop k xs))"
    by (cases "k < length xs") (simp_all add: Cons_nth_drop_Suc [symmetric])
  moreover have "length (filter p xs) = length (filter p (take k xs)) + length (filter p (drop k xs))"
    by (metis append_take_drop_id filter_append length_append)
  ultimately show ?thesis by simp
qed

lemma step_of_finished:
  assumes "wf s" and k: "k < length (pending_loads s)" and p: "pending_loads s ! k = (b, src)"
    and t: "t = u\<lparr>imgs := m\<rparr>"
    and u: "u = s\<lparr>pending_loads := take k (pending_loads s) @ drop (Suc k) (pending_loads s)\<rparr>"
    and m: "\<And>c. map_option data_src (m c) = map_option data_src (imgs s c)"
    and other: "\<And>c. c \<noteq> b \<Longrightarrow> m c = imgs s c"
  shows "wf t \<and> next_elem s \<le> next_elem t \<and>
         (\<forall>a. a < next_elem s \<and> a \<notin> watched s \<longrightarrow>
            a \<notin> watched t \<and> loads_of a t \<le> loads_of a s \<and>
            (loads_of a s = 0 \<longrightarrow> imgs t a = imgs s a))"
proof -
  have "wf t"
    by (rule wf_finished [OF assms(1) k t u m])
  moreover have "loads_of a t \<le> loads_of a s" for a
    by (simp add: t u loads_of_def filter_remove_nth del: filter_append)
  moreover have "imgs t a = imgs s a" if "loads_of a s = 0" for a
  proof -
    have "(b, src) \<in> set (pending_loads s)"
      using k p by (metis nth_mem)
    then have "loads_of b s \<noteq> 0"
      by (force simp: loads_of_def filter_empty_conv)
    with that have "a \<noteq> b" by auto
    then show ?thesis by (simp add: t other)
  qed
  ultimately show ?thesis
    by (simp add: t u watched_def)
qed

lemma apply_event_step:
  assumes "wf s" and "apply_event e s = Some t"
  shows "wf t \<and> next_elem s \<le> next_elem t \<and>
         (\<forall>a. a < next_elem s \<and> a \<notin> watched s \<longrightarrow>
            a \<notin> watched t \<and> loads_of a t \<le> loads_of a s \<and>
            (loads_of a s = 0 \<longrightarrow> imgs t a = imgs s a))"
proof (cases e)
  case (Begin page appendMode)
  with assms(2) have "lazy_view t = lazy_view s" by (auto simp: lazy_view_begin)
  from step_of_view [OF this assms(1)] show ?thesis by simp
next
  case (Resume page appendMode outcome)
  let ?s1 = "s\<lparr>awaiting := remove1 (page, appendMode) (awaiting s)\<rparr>"
  from Resume assms(2) have t: "t = loadPhotosPaginated_resume page appendMode outcome ?s1"
    by (auto split: if_splits)
  show ?thesis
  proof (cases outcome)
    case (Success result)
    let ?s2 = "?s1\<lparr>photos := (if appendMode then photos ?s1 @ res_photos result else res_photos result),
        hasMore := res_has_more result, currentPage := page\<rparr>"
    let ?r = "renderPhotosOptimized (res_photos result) appendMode ?s2"
    have v: "lazy_view t = lazy_view ?r"
      unfolding t Success by (rule lazy_view_resume_success)
    have v2: "lazy_view ?s2 = lazy_view s" by (simp add: lazy_view_def)
    have "wf ?s2" using wf_view [OF v2] assms(1) by simp
    from step_of_render [OF this, of "res_photos result" appendMode]
    show ?thesis
      unfolding wf_view [OF v] view_fields [OF v] view_fields [OF v2] by simp
  next
    case (NetworkError err)
    then have "lazy_view t = lazy_view s" by (simp add: t lazy_view_resume_failed)
    from step_of_view [OF this assms(1)] show ?thesis by simp
  next
    case HttpError
    then have "lazy_view t = lazy_view s" by (simp add: t lazy_view_resume_failed)
    from step_of_view [OF this assms(1)] show ?thesis by simp
  next
    case (BodyError err)
    then have "lazy_view t = lazy_view s" by (simp add: t lazy_view_resume_failed)
    from step_of_view [OF this assms(1)] show ?thesis by simp
  qed
next
  case (Render ps appendMode)
  with assms(2) have "t = renderPhotosOptimized ps appendMode s" by simp
  with step_of_render [OF assms(1), of ps appendMode] show ?thesis by simp
next
  case (Preload outcome)
  with assms(2) have "lazy_view t = lazy_view s" by (auto simp: lazy_view_preloadNextPage)
  from step_of_view [OF this assms(1)] show ?thesis by simp
next
  case (Notify entries)
  with assms(2) have en: "set (map fst entries) \<subseteq> watched s" "distinct (map fst entries)"
    and t: "t = observer_callback entries s"
    by (auto split: if_splits)
  have f: "imgs t = imgs s" "next_elem t = next_elem s"
    unfolding t by (subst observer_callback_effect, simp)+
  have "wf t"
    unfolding t by (rule observer_callback_step [OF assms(1) en])
  moreover have "watched t \<subseteq> watched s"
    unfolding t observer_callback_watched by auto
  moreover have "loads_of a t = loads_of a s" if "a \<notin> watched s" for a
    unfolding t using en(1) that by (rule observer_callback_other)
  ultimately show ?thesis
    by (auto simp: f)
next
  case (ImgLoaded k)
  with assms(2) have k: "k < length (pending_loads s)" by (auto split: if_splits)
  obtain b src where p: "pending_loads s ! k = (b, src)" by (cases "pending_loads s ! k")
  let ?u = "s\<lparr>pending_loads := take k (pending_loads s) @ drop (Suc k) (pending_loads s)\<rparr>"
  have t: "t = tempImg_onload b src ?u"
    using assms(2) ImgLoaded k p by simp
  have t': "t = ?u\<lparr>imgs := imgs t\<rparr>"
    unfolding t by (rule tempImg_onload_effect)
  have m: "map_option data_src (imgs t c) = map_option data_src (imgs s c)" for c
    unfolding t tempImg_onload_effect(1) by (cases "imgs s b") simp_all
  have o: "imgs t c = imgs s c" if "c \<noteq> b" for c
    unfolding t tempImg_onload_effect(1) using that by simp
  show ?thesis
    by (rule step_of_finished [OF assms(1) k p t' refl m o])
next
  case (ImgFailed k)
  with assms(2) have k: "k < length (pending_loads s)" by (auto split: if_splits)
  obtain b src where p: "pending_loads s ! k = (b, src)" by (cases "pending_loads s ! k")
  let ?u = "s\<lparr>pending_loads := take k (pending_loads s) @ drop (Suc k) (pending_loads s)\<rparr>"
  have t: "t = tempImg_onerror b ?u"
    using assms(2) ImgFailed k p by simp
  have t': "t = ?u\<lparr>imgs := imgs t\<rparr>"
    unfolding t by (rule tempImg_onerror_effect)
  have m: "map_option data_src (imgs t c) = map_option data_src (imgs s c)" for c
    unfolding t tempImg_onerror_effect(1) by (cases "imgs s b") simp_all
  have o: "imgs t c = imgs s c" if "c \<noteq> b" for c
    unfolding t tempImg_onerror_effect(1) using that by simp
  show ?thesis
    by (rule step_of_finished [OF assms(1) k p t' refl m o])
next
  case (Scroll x y z)
  with assms(2) have "lazy_view t = lazy_view s" by (auto simp: lazy_view_scrollHandler)
  from step_of_view [OF this assms(1)] show ?thesis by simp
next
  case ThrottleTimeout
  with assms(2) have "lazy_view t = lazy_view s" by (auto simp: throttle_timeout_def)
  from step_of_view [OF this assms(1)] show ?thesis by simp
next
  case Click
  with assms(2) have "lazy_view t = lazy_view s"
    by (auto simp: lazy_view_onclick split: if_splits)
  from step_of_view [OF this assms(1)] show ?thesis by simp
qed

lemma run_append: "run (es @ fs) s = (case run es s of None \<Rightarrow> None | Some t \<Rightarrow> run fs t)"
  by (induction es arbitrary: s) (auto split: option.splits)

lemma run_keeps:
  assumes "wf s" and "run evs s = Some t"
  shows "wf t \<and> next_elem s \<le> next_elem t \<and>
         (\<forall>a. a < next_elem s \<and> a \<notin> watched s \<longrightarrow>
            a \<notin> watched t \<and> loads_of a t \<le> loads_of a s \<and>
            (loads_of a s = 0 \<longrightarrow> imgs t a = imgs s a))"
  using assms
proof (induction evs arbitrary: s)
  case Nil
  then show ?case by simp
next
  case (Cons e evs)
  from Cons.prems(2) obtain u where u: "apply_event e s = Some u" and r: "run evs u = Some t"
    by (auto split: option.splits)
  note a = apply_event_step [OF Cons.prems(1) u]
  then have "wf u" by simp
  note b = Cons.IH [OF this r]
  show ?case
  proof (intro conjI allI impI)
    show "wf t" using b by simp
    show "next_elem s \<le> next_elem t" using a b by linarith
  next
    fix c assume c: "c < next_elem s \<and> c \<notin> watched s"
    then have cu: "c < next_elem u \<and> c \<notin> watched u" using a by force
    show "c \<notin> watched t" using b cu by blast
    show "loads_of c t \<le> loads_of c s"
      using a b c cu by (meson order_trans)
    show "imgs t c = imgs s c" if "loads_of c s = 0"
    proof -
      have "loads_of c u = 0" "imgs u c = imgs s c" using a c that by force+
      then show ?thesis using b cu by force
    qed
  qed
qed

section \<open>The invariant holds when the optimizer starts\<close>

lemma doc_lazy_imgs_stored: "a \<in> set (doc_lazy_imgs m ns) \<Longrightarrow> m a \<noteq> None"
proof (induction ns)
  case Nil
  then show ?case by simp
next
  case (Cons n ns)
  show ?case
  proof (cases "a \<in> set (doc_lazy_imgs m ns)")
    case True
    then show ?thesis by (rule Cons.IH)
  next
    case False
    with Cons.prems show ?thesis
      by (cases n) (auto split: option.splits media.splits if_splits)
  qed
qed

lemma wf_initLazyLoad:
  assumes "pending_loads s = []"
    and "filter is_photo_item (all_nodes (doc s)) = []"
    and "\<And>a. imgs s a \<noteq> None \<Longrightarrow> a < next_elem s"
  shows "wf (initLazyLoad supported (constructor s))"
proof -
  have t: "observe_targets (imgs s) (all_nodes (doc s)) = []"
    using observe_targets_items [of "imgs s" "all_nodes (doc s)"] assms(2) by simp
  show ?thesis
  proof (cases supported)
    case False
    then show ?thesis
      using assms(1) by (simp add: initLazyLoad_def constructor_def wf_def watched_def loading_def)
  next
    case True
    have "a < next_elem s" if "a \<in> set (doc_lazy_imgs (imgs s) (all_nodes (doc s)))" for a
      using doc_lazy_imgs_stored [OF that] by (rule assms(3))
    then show ?thesis
      using True assms(1) t
      by (simp add: initLazyLoad_def observeImages_def constructor_def wf_def watched_def
          loading_def)
  qed
qed

section \<open>The lazy-load properties\<close>

lemma started_of_target:
  assumes "distinct (map fst entries)" and "(a, True) \<in> set entries"
    and "m a = Some i" and "deferred_src i = Some src"
  shows "filter (\<lambda>l. fst l = a) (started m entries) = [(a, src)]"
  using assms(1,2)
proof (induction entries)
  case Nil
  then show ?case by simp
next
  case (Cons e entries)
  obtain x b where e: "e = (x, b)" by (cases e)
  have ls: "load_started m a = [(a, src)]"
    using assms(3,4) by (simp add: load_started_def)
  show ?case
  proof (cases "x = a")
    case True
    then have "(a, True) \<notin> set entries" and b: "b"
      using Cons.prems by (auto simp: e image_iff)
    then have "a \<notin> set (map fst (started m entries))"
      using started_targets [of a m entries] by blast
    then have "filter (\<lambda>l. fst l = a) (started m entries) = []"
      by (auto simp: filter_empty_conv)
    then show ?thesis
      using True b by (simp add: e ls)
  next
    case False
    then have in_rest: "(a, True) \<in> set entries" and d: "distinct (map fst entries)"
      using Cons.prems by (auto simp: e)
    have "filter (\<lambda>l. fst l = a) (load_started m x) = []"
    proof (cases rule: load_started_cases [of m x])
      case none
      then show ?thesis by simp
    next
      case (one other)
      with False show ?thesis by simp
    qed
    then show ?thesis
      using Cons.IH [OF d in_rest] by (simp add: e)
  qed
qed

lemma created_img_has_source:
  assumes "photo_type p \<noteq> ''video''"
  shows "\<exists>i. imgs (snd (createPhotoItem p idx u)) (next_elem u) = Some i
           \<and> deferred_src i = Some (thumbnail_url (baseUrl u) (photo_id p))"
  using assms by (simp add: createPhotoItem_def Let_def deferred_src_def thumbnail_url_def)

text \<open>
  C4. A placeholder that is watched and has a deferred source, in a state of the running
  pipeline. No load is under way for it. A report of the observer that holds an
  intersecting entry for it starts exactly one load for it and takes it off the
  observer in the same callback. From then on, whatever happens, it is never watched
  again and no step starts another load for it: the number of its loads under way never
  grows. Once its load has finished (loaded or failed) the img never changes again and
  is never watched or loaded again. The img that the renderer creates for an image
  record always has a deferred source, the thumbnail URL.
\<close>

theorem C4_watched_to_loading_exactly_once:
  assumes "wf s" and "a \<in> watched s" and "imgs s a = Some i" and "deferred_src i = Some src"
    and "(a, True) \<in> set entries" and "apply_event (Notify entries) s = Some t"
  shows "loads_of a s = 0
       \<and> loads_of a t = 1
       \<and> (a, src) \<in> set (pending_loads t)
       \<and> a \<notin> watched t
       \<and> (\<forall>evs u. run evs t = Some u \<longrightarrow>
             a \<notin> watched u \<and> loads_of a u \<le> 1
           \<and> (\<forall>e v. apply_event e u = Some v \<longrightarrow> a \<notin> watched v \<and> loads_of a v \<le> loads_of a u)
           \<and> (loads_of a u = 0 \<longrightarrow>
                 (\<forall>fs v. run fs u = Some v \<longrightarrow>
                    imgs v a = imgs u a \<and> a \<notin> watched v \<and> loads_of a v = 0)))
       \<and> (\<forall>p idx u. photo_type p \<noteq> ''video'' \<longrightarrow>
             (\<exists>j. imgs (snd (createPhotoItem p idx u)) (next_elem u) = Some j
                \<and> deferred_src j = Some (thumbnail_url (baseUrl u) (photo_id p))))"
proof -
  from assms(6) have en: "set (map fst entries) \<subseteq> watched s" "distinct (map fst entries)"
    and t: "t = observer_callback entries s"
    by (auto split: if_splits)
  have a_lt: "a < next_elem s" and not_loading: "a \<notin> set (loading s)"
    using assms(1,2) by (auto simp: wf_def)
  have l0: "loads_of a s = 0"
    using not_loading by (auto simp: loads_of_def loading_def filter_empty_conv)
  have mine: "filter (\<lambda>l. fst l = a) (started (imgs s) entries) = [(a, src)]"
    using en(2) assms(5) assms(3) assms(4) by (rule started_of_target [where m = "imgs s"])
  have pl: "pending_loads t = pending_loads s @ started (imgs s) entries"
    unfolding t by (subst observer_callback_effect) simp
  have l1: "loads_of a t = 1"
    using l0 mine by (simp add: loads_of_def pl)
  have "(a, src) \<in> set (filter (\<lambda>l. fst l = a) (started (imgs s) entries))"
    by (simp add: mine)
  then have inp: "(a, src) \<in> set (pending_loads t)"
    by (simp add: pl)
  have nw: "a \<notin> watched t"
    unfolding t observer_callback_watched using assms(5) by simp
  have wt: "wf t" and nt: "a < next_elem t"
    using apply_event_step [OF assms(1) assms(6)] a_lt by auto
  have later: "a \<notin> watched u \<and> loads_of a u \<le> 1
           \<and> (\<forall>e v. apply_event e u = Some v \<longrightarrow> a \<notin> watched v \<and> loads_of a v \<le> loads_of a u)
           \<and> (loads_of a u = 0 \<longrightarrow>
                 (\<forall>fs v. run fs u = Some v \<longrightarrow>
                    imgs v a = imgs u a \<and> a \<notin> watched v \<and> loads_of a v = 0))"
    if r: "run evs t = Some u" for evs u
  proof -
    note k = run_keeps [OF wt r]
    have wu: "wf u" and nu: "a < next_elem u" and au: "a \<notin> watched u"
      and lu: "loads_of a u \<le> 1"
      using k nt nw l1 by force+
    have one: "a \<notin> watched v \<and> loads_of a v \<le> loads_of a u" if "apply_event e u = Some v" for e v
      using apply_event_step [OF wu that] nu au by blast
    have rest: "imgs v a = imgs u a \<and> a \<notin> watched v \<and> loads_of a v = 0"
      if "loads_of a u = 0" "run fs u = Some v" for fs v
      using run_keeps [OF wu that(2)] nu au that(1) by force
    from au lu one rest show ?thesis by blast
  qed
  from l0 l1 inp nw later created_img_has_source show ?thesis by blast
qed

lemma filter_removed_distinct:
  assumes "distinct (map fst xs)" and "k < length xs" and "xs ! k = (a, src)"
  shows "filter (\<lambda>l. fst l = a) (take k xs @ drop (Suc k) xs) = []"
proof -
  have "xs = take k xs @ (a, src) # drop (Suc k) xs"
    using assms(2,3) by (metis id_take_nth_drop)
  then have "distinct (map fst (take k xs @ (a, src) # drop (Suc k) xs))"
    using assms(1) by simp
  then have "a \<notin> fst ` set (take k xs)" "a \<notin> fst ` set (drop (Suc k) xs)"
    by auto
  then show ?thesis
    by (auto simp: filter_empty_conv)
qed

text \<open>
  C7. The load of a placeholder's deferred image fails: the onerror handler runs. The
  img's src becomes the fallback data URL and nothing else of the img changes; no load
  is started, so nothing is retried; every other img, the loads under way for the
  others, the observer, the document, the requests and the pagination state are as
  they were. In a state of the running pipeline the placeholder then stays as it is
  whatever happens: its src remains the fallback, it is never watched and never loaded
  again.
\<close>

theorem C7_failed_load_gets_fallback_for_good:
  assumes "k < length (pending_loads s)" and "pending_loads s ! k = (a, src)"
    and "imgs s a = Some i"
  shows "apply_event (ImgFailed k) s \<noteq> None
       \<and> (\<forall>t. apply_event (ImgFailed k) s = Some t \<longrightarrow>
             imgs t a = Some (i\<lparr>img_src := fallback_src\<rparr>)
           \<and> (\<forall>b. b \<noteq> a \<longrightarrow> imgs t b = imgs s b \<and> loads_of b t = loads_of b s)
           \<and> pending_loads t = take k (pending_loads s) @ drop (Suc k) (pending_loads s)
           \<and> requests t = requests s
           \<and> watched t = watched s
           \<and> doc t = doc s
           \<and> currentPage t = currentPage s \<and> perPage t = perPage s
           \<and> isLoading t = isLoading s \<and> hasMore t = hasMore s
           \<and> loadedPhotos t = loadedPhotos s \<and> photos t = photos s
           \<and> (wf s \<longrightarrow>
                 (\<forall>evs u. run evs t = Some u \<longrightarrow>
                    imgs u a = Some (i\<lparr>img_src := fallback_src\<rparr>)
                  \<and> a \<notin> watched u \<and> loads_of a u = 0)))"
proof -
  let ?rest = "take k (pending_loads s) @ drop (Suc k) (pending_loads s)"
  let ?t = "tempImg_onerror a (s\<lparr>pending_loads := ?rest\<rparr>)"
  have ev: "apply_event (ImgFailed k) s = Some ?t"
    using assms(1,2) by simp
  have shape: "?t = s\<lparr>pending_loads := ?rest, imgs := imgs ?t\<rparr>"
    by (subst tempImg_onerror_effect(2)) simp
  have frame: "pending_loads ?t = ?rest" "requests ?t = requests s" "watched ?t = watched s"
    "doc ?t = doc s" "currentPage ?t = currentPage s" "perPage ?t = perPage s"
    "isLoading ?t = isLoading s" "hasMore ?t = hasMore s" "loadedPhotos ?t = loadedPhotos s"
    "photos ?t = photos s" "next_elem ?t = next_elem s"
    by (subst shape, simp add: watched_def)+
  have mine: "imgs ?t a = Some (i\<lparr>img_src := fallback_src\<rparr>)"
    by (simp add: tempImg_onerror_effect(1) assms(3))
  have others: "imgs ?t b = imgs s b \<and> loads_of b ?t = loads_of b s" if "b \<noteq> a" for b
  proof -
    have "pending_loads s = take k (pending_loads s) @ (a, src) # drop (Suc k) (pending_loads s)"
      using assms(1,2) by (metis id_take_nth_drop)
    then have "filter (\<lambda>l. fst l = b) (pending_loads s) = filter (\<lambda>l. fst l = b) ?rest"
      using that by (metis (mono_tags, lifting) filter.simps(2) filter_append fst_conv)
    then show ?thesis
      using that by (simp add: tempImg_onerror_effect(1) loads_of_def frame(1))
  qed
  have final: "imgs u a = Some (i\<lparr>img_src := fallback_src\<rparr>) \<and> a \<notin> watched u \<and> loads_of a u = 0"
    if "wf s" and r: "run evs ?t = Some u" for evs u
  proof -
    have wt: "wf ?t"
      using apply_event_step [OF \<open>wf s\<close> ev] by simp
    have "a \<in> set (loading s)"
      using assms(1,2) by (metis fst_conv loading_def nth_map nth_mem length_map)
    then have "a < next_elem s" "a \<notin> watched s"
      using \<open>wf s\<close> by (auto simp: wf_def)
    then have q: "a < next_elem ?t" "a \<notin> watched ?t"
      by (simp_all add: frame)
    have "distinct (map fst (pending_loads s))"
      using \<open>wf s\<close> by (simp add: wf_def loading_def)
    then have z: "loads_of a ?t = 0"
      using filter_removed_distinct [OF _ assms(1,2)] by (simp add: loads_of_def frame(1))
    from run_keeps [OF wt r] q z mine show ?thesis by force
  qed
  from ev frame mine others final show ?thesis
    by (simp del: apply_event.simps)
qed

lemma page_one_facts:
  "wf page_one" "0 \<in> watched page_one"
  "imgs page_one 0 =
     Some \<lparr>data_src = Some ''http://localhost:3000/api/photos/7/thumbnail'', data_lazy = None,
           data_full = Some ''http://localhost:3000/api/photos/7/data'', img_alt = ''sea'',
           img_src = [], img_loaded = False, img_opacity = ''0''\<rparr>"
  by code_simp+

lemma page_loading_facts:
  "wf page_loading" "0 < length (pending_loads page_loading)"
  "pending_loads page_loading ! 0 = (0, ''http://localhost:3000/api/photos/7/thumbnail'')"
  "imgs page_loading 0 =
     Some \<lparr>data_src = Some ''http://localhost:3000/api/photos/7/thumbnail'', data_lazy = None,
           data_full = Some ''http://localhost:3000/api/photos/7/data'', img_alt = ''sea'',
           img_src = [], img_loaded = False, img_opacity = ''0''\<rparr>"
  by code_simp+

theorem C4_witness:
  "wf page_one \<and> 0 \<in> watched page_one
   \<and> loads_of 0 page_one = 0
   \<and> loads_of 0 page_loading = 1
   \<and> (0, ''http://localhost:3000/api/photos/7/thumbnail'') \<in> set (pending_loads page_loading)
   \<and> 0 \<notin> watched page_loading
   \<and> (case run [ImgLoaded 0, Render [photo_a] True, Scroll 0 700 1000] page_loading of
         None \<Rightarrow> False
       | Some u \<Rightarrow> 0 \<notin> watched u \<and> loads_of 0 u \<le> 1)"
proof -
  let ?i = "\<lparr>data_src = Some ''http://localhost:3000/api/photos/7/thumbnail'', data_lazy = None,
           data_full = Some ''http://localhost:3000/api/photos/7/data'', img_alt = ''sea'',
           img_src = [], img_loaded = False, img_opacity = ''0''\<rparr>"
  have src: "deferred_src ?i = Some ''http://localhost:3000/api/photos/7/thumbnail''"
    by (simp add: deferred_src_def)
  have mem: "(0::nat, True) \<in> set [(0, True)]"
    by simp
  have ev: "apply_event (Notify [(0, True)]) page_one = Some page_loading"
    using page_one_facts(2) by (simp add: page_loading_def)
  have "\<not> Option.is_none (run [ImgLoaded 0, Render [photo_a] True, Scroll 0 700 1000] page_loading)"
    by code_simp
  then obtain u where u: "run [ImgLoaded 0, Render [photo_a] True, Scroll 0 700 1000] page_loading = Some u"
    by (auto simp: Option.is_none_def)
  show ?thesis
    using C4_watched_to_loading_exactly_once
      [OF page_one_facts(1) page_one_facts(2) page_one_facts(3) src mem ev] u
      page_one_facts(1,2)
    by (simp del: run.simps)
qed

theorem C7_witness:
  "0 < length (pending_loads page_loading) \<and> wf page_loading
   \<and> (case apply_event (ImgFailed 0) page_loading of
         None \<Rightarrow> False
       | Some t \<Rightarrow>
           map_option img_src (imgs t 0) = Some fallback_src
         \<and> pending_loads t = []
         \<and> requests t = requests page_loading
         \<and> (case run [Render [photo_a] True, Scroll 0 700 1000, Notify []] t of
               None \<Rightarrow> False
             | Some u \<Rightarrow> map_option img_src (imgs u 0) = Some fallback_src
                        \<and> 0 \<notin> watched u \<and> loads_of 0 u = 0))"
proof -
  note f = page_loading_facts
  have p: "pending_loads page_loading = [(0, ''http://localhost:3000/api/photos/7/thumbnail'')]"
    by code_simp
  have "apply_event (ImgFailed 0) page_loading \<noteq> None"
    using C7_failed_load_gets_fallback_for_good [OF f(2) f(3) f(4)] by blast
  then obtain t where t: "apply_event (ImgFailed 0) page_loading = Some t"
    by blast
  have "\<not> Option.is_none (run [Render [photo_a] True, Scroll 0 700 1000, Notify []]
          (the (apply_event (ImgFailed 0) page_loading)))"
    by code_simp
  then obtain u where u: "run [Render [photo_a] True, Scroll 0 700 1000, Notify []] t = Some u"
    by (auto simp: Option.is_none_def t)
  show ?thesis
    using C7_failed_load_gets_fallback_for_good [OF f(2) f(3) f(4)] t u f(1,2)
    by (simp del: run.simps apply_event.simps add: p)
qed

section \<open>The set loadedPhotos\<close>

lemma createPhotoItem_loadedPhotos:
  "createPhotoItem p i (s\<lparr>loadedPhotos := X\<rparr>) =
     (fst (createPhotoItem p i s), (snd (createPhotoItem p i s))\<lparr>loadedPhotos := X\<rparr>)"
  by (simp add: createPhotoItem_def Let_def)

lemma build_fragment_loadedPhotos:
  "build_fragment ps i (s\<lparr>loadedPhotos := X\<rparr>) =
     (fst (build_fragment ps i s), (snd (build_fragment ps i s))\<lparr>loadedPhotos := X\<rparr>)"
proof (induction ps arbitrary: i s)
  case Nil
  show ?case by simp
next
  case (Cons p ps)
  show ?case
    by (simp add: createPhotoItem_loadedPhotos Cons.IH split: prod.splits)
qed

lemma render_unfold:
  "renderPhotosOptimized ps appendMode s =
     (case photoWall (doc s) of
        None \<Rightarrow> s
      | Some w \<Rightarrow>
          if ps = [] \<and> \<not> appendMode then set_wall [PhotoEmpty] (set_wall [] s)
          else observe_new_items
                 (append_fragment
                    (fst (build_fragment ps 0 (if appendMode then s else set_wall [] s)))
                    (snd (build_fragment ps 0 (if appendMode then s else set_wall [] s)))))"
  by (simp add: renderPhotosOptimized_def Let_def split: prod.splits option.splits)

lemma render_ignores_loadedPhotos:
  "renderPhotosOptimized ps appendMode (s\<lparr>loadedPhotos := X\<rparr>) =
     (renderPhotosOptimized ps appendMode s)\<lparr>loadedPhotos := X\<rparr>"
proof -
  have sw: "set_wall ns (t\<lparr>loadedPhotos := X\<rparr>) = (set_wall ns t)\<lparr>loadedPhotos := X\<rparr>" for ns t
    by (simp add: set_wall_def)
  have af: "append_fragment f (t\<lparr>loadedPhotos := X\<rparr>) = (append_fragment f t)\<lparr>loadedPhotos := X\<rparr>" for f t
    by (simp add: append_fragment_def)
  have ob: "observe_new_items (t\<lparr>loadedPhotos := X\<rparr>) = (observe_new_items t)\<lparr>loadedPhotos := X\<rparr>" for t
    by (simp add: observe_new_items_def split: option.splits)
  show ?thesis
    by (cases "photoWall (doc s)")
       (simp_all add: render_unfold sw build_fragment_loadedPhotos af ob)
qed

lemma resume_loadedPhotos:
  "loadedPhotos (loadPhotosPaginated_resume page appendMode outcome s) = loadedPhotos s"
proof -
  have f: "loadedPhotos (finally_block t) = loadedPhotos t" for t
    by (subst finally_block_shape) simp
  have c: "loadedPhotos (catch_block e t) = loadedPhotos t" for e t
    by (subst catch_block_shape) simp
  have u: "loadedPhotos (updateLoadMoreButton t) = loadedPhotos t" for t
    by (subst updateLoadMoreButton_shape) simp
  show ?thesis
    by (cases outcome)
       (simp_all add: loadPhotosPaginated_resume_def f c u renderPhotosOptimized_frame)
qed

lemma begin_loadedPhotos:
  "loadedPhotos (loadPhotosPaginated_begin page appendMode s) = loadedPhotos s"
  by (subst begin_shape) simp

lemma more_loadedPhotos:
  "loadedPhotos (preloadNextPage outcome s) = loadedPhotos s"
  "loadedPhotos (observer_callback entries s) = loadedPhotos s"
  "loadedPhotos (tempImg_onload a src s) = loadedPhotos s"
  "loadedPhotos (tempImg_onerror a s) = loadedPhotos s"
  "loadedPhotos (scrollHandler x y z s) = loadedPhotos s"
      apply (subst preloadNextPage_shape, simp)
    apply (subst observer_callback_effect, simp)
   apply (subst tempImg_onload_effect(2), simp)
   apply (subst tempImg_onerror_effect(2), simp)
  apply (simp add: scrollHandler_def scroll_check_def begin_loadedPhotos)
  done

lemma apply_event_loadedPhotos:
  assumes "apply_event e s = Some t"
  shows "loadedPhotos t = loadedPhotos s"
proof (cases e)
  case (Begin page appendMode)
  with assms show ?thesis by (auto simp: begin_loadedPhotos)
next
  case (Resume page appendMode outcome)
  with assms show ?thesis by (auto simp: resume_loadedPhotos split: if_splits)
next
  case (Render ps appendMode)
  with assms show ?thesis by (auto simp: renderPhotosOptimized_frame)
next
  case (Preload outcome)
  with assms show ?thesis by (auto simp: more_loadedPhotos)
next
  case (Notify entries)
  with assms show ?thesis by (auto simp: more_loadedPhotos split: if_splits)
next
  case (ImgLoaded k)
  with assms show ?thesis
    by (cases "pending_loads s ! k") (auto simp: more_loadedPhotos split: if_splits)
next
  case (ImgFailed k)
  with assms show ?thesis
    by (cases "pending_loads s ! k") (auto simp: more_loadedPhotos split: if_splits)
next
  case (Scroll x y z)
  with assms show ?thesis
    by (auto simp: more_loadedPhotos)
next
  case ThrottleTimeout
  with assms show ?thesis by (auto simp: throttle_timeout_def)
next
  case Click
  with assms show ?thesis
    by (auto simp: loadMore_onclick_def begin_loadedPhotos split: if_splits)
qed

lemma run_loadedPhotos: "run evs s = Some t \<Longrightarrow> loadedPhotos t = loadedPhotos s"
proof (induction evs arbitrary: s)
  case Nil
  then show ?case by simp
next
  case (Cons e evs)
  then obtain u where "apply_event e s = Some u" "run evs u = Some t"
    by (auto split: option.splits)
  then show ?case
    using Cons.IH [of u] apply_event_loadedPhotos [of e s u] by simp
qed

text \<open>
  C9, as the code has it. The constructor makes loadedPhotos the empty set and nothing
  ever changes it: after any events it is what it was. The renderer does not read it:
  rendering from a state with another loadedPhotos gives the same result. In append
  mode on a page with the wall the renderer adds one photo item per record of its
  input, whatever ids the wall already shows, so a record rendered twice is shown
  twice.
\<close>

theorem C9_loadedPhotos_is_never_used:
  "loadedPhotos (constructor s) = {}
   \<and> (\<forall>evs t. run evs s = Some t \<longrightarrow> loadedPhotos t = loadedPhotos s)
   \<and> renderPhotosOptimized ps appendMode (s\<lparr>loadedPhotos := X\<rparr>)
       = (renderPhotosOptimized ps appendMode s)\<lparr>loadedPhotos := X\<rparr>
   \<and> (\<forall>w. photoWall (doc s) = Some w \<longrightarrow>
         rendered_ids (wall_nodes (doc (renderPhotosOptimized ps True s)))
           = rendered_ids w @ map photo_id ps)"
proof -
  have a: "loadedPhotos (constructor s) = {}"
    by (simp add: constructor_def)
  have b: "\<forall>evs t. run evs s = Some t \<longrightarrow> loadedPhotos t = loadedPhotos s"
    using run_loadedPhotos by blast
  have c: "rendered_ids (wall_nodes (doc (renderPhotosOptimized ps True s)))
           = rendered_ids w @ map photo_id ps" if "photoWall (doc s) = Some w" for w
    using render_append_wall [OF that, of ps]
    by (simp add: wall_nodes_def rendered_ids_append rendered_ids_marking build_fragment_ids)
  from a b c render_ignores_loadedPhotos show ?thesis by blast
qed

theorem C9_witness:
  "photoWall (doc page_one) \<noteq> None
   \<and> loadedPhotos (constructor page_one) = {}
   \<and> (case run [Render [photo_a] True, Scroll 0 700 1000] page_one of
         None \<Rightarrow> False
       | Some t \<Rightarrow> loadedPhotos t = {})
   \<and> rendered_ids (wall_nodes (doc (renderPhotosOptimized [photo_a] True page_one)))
       = [''7'', ''8'', ''7'']"
proof -
  have w: "photoWall (doc page_one) \<noteq> None" "rendered_ids (wall_nodes (doc page_one)) = [''7'', ''8'']"
    by code_simp+
  then obtain ns where ns: "photoWall (doc page_one) = Some ns" by blast
  have l: "loadedPhotos page_one = {}"
    by (simp add: page_one_def ready_page_def blank_page_def loadPhotosPaginated_def
        Let_def resume_loadedPhotos begin_loadedPhotos initLazyLoad_def observeImages_def)
  have "\<not> Option.is_none (run [Render [photo_a] True, Scroll 0 700 1000] page_one)"
    by code_simp
  then obtain t where t: "run [Render [photo_a] True, Scroll 0 700 1000] page_one = Some t"
    by (auto simp: Option.is_none_def)
  show ?thesis
    using C9_loadedPhotos_is_never_used [of page_one "[photo_a]" True "{}"] w ns t l
    by (simp del: run.simps add: wall_nodes_def photo_a_def)
qed

theorem C9_counterexample:
  "rendered_ids (wall_nodes (doc
      (loadPhotosPaginated 2 True (Success \<lparr>res_photos = [photo_a], res_has_more = False\<rparr>) page_one)))
     = [''7'', ''8'', ''7'']
   \<and> ''7'' \<notin> loadedPhotos
      (loadPhotosPaginated 2 True (Success \<lparr>res_photos = [photo_a], res_has_more = False\<rparr>) page_one)
   \<and> loadedPhotos page_one \<noteq> set (rendered_ids (wall_nodes (doc page_one)))"
  by code_simp

section \<open>The load-more button\<close>

lemma find_update_other:
  assumes "\<And>n. p (f n) = p n" and "\<And>n. q n \<Longrightarrow> \<not> p n"
  shows "find p (update_first q f xs) = find p xs"
  using assms by (induction xs) auto

lemma find_append_cong:
  "find p xs = find p xs' \<Longrightarrow> find p ys = find p ys' \<Longrightarrow> find p (xs @ ys) = find p (xs' @ ys')"
  by (simp add: find_append_cases split: option.splits)

lemma all_nodes_update_element:
  "all_nodes (update_element other f d) =
     (if find (has_id other) (doc_before d) \<noteq> None
      then update_first (has_id other) f (doc_before d) @ wall_nodes d @ doc_after d
      else if find (has_id other) (wall_nodes d) \<noteq> None
      then doc_before d @ update_first (has_id other) f (wall_nodes d) @ doc_after d
      else doc_before d @ wall_nodes d @ update_first (has_id other) f (doc_after d))"
  by (cases "photoWall d") (simp_all add: update_element_def all_nodes_def wall_nodes_def)

lemma getElementById_update_other:
  assumes "ident \<noteq> other" and "\<And>n. has_id ident (f n) = has_id ident n"
  shows "getElementById ident (update_element other f d) = getElementById ident d"
proof -
  have ex: "has_id other n \<Longrightarrow> \<not> has_id ident n" for n
    using assms(1) by (auto simp: has_id_def)
  have "find (has_id ident) (update_first (has_id other) f xs) = find (has_id ident) xs" for xs
    by (rule find_update_other) (simp_all add: assms(2) ex)
  then have "find (has_id ident) (all_nodes (update_element other f d))
               = find (has_id ident) (all_nodes d)"
    by (subst all_nodes_update_element) (auto simp: all_nodes_def intro!: find_append_cong)
  then show ?thesis
    by (simp add: getElementById_def)
qed

lemma getElementById_appendChild_new:
  assumes "getElementById ident d = None" and "photoWall d \<noteq> None" and "has_id ident n"
  shows "getElementById ident (appendChild n d) = Some n"
proof -
  obtain w where w: "photoWall d = Some w" using assms(2) by blast
  have "find (has_id ident) (doc_before d) = None" "find (has_id ident) w = None"
    using assms(1) w
    by (auto simp: getElementById_def all_nodes_def wall_nodes_def find_append_cases
        split: option.splits)
  then show ?thesis
    using assms(3) w
    by (simp add: getElementById_def appendChild_def all_nodes_def wall_nodes_def find_append_cases)
qed

lemma updateLoadMoreButton_shown:
  assumes "hasMore s" and "photoWall (doc s) \<noteq> None"
  shows "shown ''loadMorePhotosBtn'' (doc (updateLoadMoreButton s))"
proof (cases "getElementById ''loadMorePhotosBtn'' (doc s)")
  case None
  have "has_id ''loadMorePhotosBtn'' (LoadMoreBtn ''block'' txt_load_more)"
    by (simp add: has_id_def)
  from getElementById_appendChild_new [OF None assms(2) this] show ?thesis
    using assms(1) None by (simp add: updateLoadMoreButton_def shown_def)
next
  case (Some btn)
  then have "has_id ''loadMorePhotosBtn'' btn"
    by (rule getElementById_has_id)
  then have "display_of ((set_text txt_load_more \<circ> set_display ''block'') btn) = Some ''block''"
    by (cases btn) (simp_all add: has_id_def)
  then show ?thesis
    using assms(1) Some
    by (simp add: updateLoadMoreButton_def shown_def getElementById_update_element)
qed

lemma updateLoadMoreButton_hidden:
  assumes "\<not> hasMore s"
  shows "hidden ''loadMorePhotosBtn'' (doc (updateLoadMoreButton s))"
proof (cases "getElementById ''loadMorePhotosBtn'' (doc s)")
  case None
  then show ?thesis
    using assms by (simp add: updateLoadMoreButton_def hidden_def)
next
  case (Some btn)
  then have "has_id ''loadMorePhotosBtn'' btn"
    by (rule getElementById_has_id)
  then show ?thesis
    using assms Some
    by (simp add: updateLoadMoreButton_def hidden_def getElementById_update_element
        display_of_set_display)
qed

lemma finally_block_button:
  "getElementById ''loadMorePhotosBtn'' (doc (finally_block s)) = getElementById ''loadMorePhotosBtn'' (doc s)"
  by (simp add: finally_block_def hideLoadingIndicator_def getElementById_update_other
      split: option.splits)

lemma finally_block_fields:
  "hasMore (finally_block s) = hasMore s" "currentPage (finally_block s) = currentPage s"
  "isLoading (finally_block s) = False"
  "(photoWall (doc (finally_block s)) = None) = (photoWall (doc s) = None)"
     apply (subst finally_block_shape, simp)
    apply (subst finally_block_shape, simp)
   apply (subst finally_block_shape, simp)
  apply (simp add: finally_block_def hideLoadingIndicator_def photoWall_update_element
      split: option.splits)
  done

lemma updateLoadMoreButton_fields:
  "hasMore (updateLoadMoreButton s) = hasMore s" "currentPage (updateLoadMoreButton s) = currentPage s"
  "(photoWall (doc (updateLoadMoreButton s)) = None) = (photoWall (doc s) = None)"
    apply (subst updateLoadMoreButton_shape, simp)
   apply (subst updateLoadMoreButton_shape, simp)
  apply (simp add: updateLoadMoreButton_def photoWall_update_element photoWall_appendChild
      split: option.splits)
  done

lemma render_keeps_wall:
  "(photoWall (doc (renderPhotosOptimized ps appendMode s)) = None) = (photoWall (doc s) = None)"
  by (cases "photoWall (doc s)"; cases "lazyLoadObserver s")
     (simp_all add: render_unfold set_wall_def append_fragment_def observe_new_items_def
        build_fragment_frame map_nodes_def)

lemma begin_keeps_wall:
  "(photoWall (doc (loadPhotosPaginated_begin page appendMode s)) = None) = (photoWall (doc s) = None)"
  by (simp add: loadPhotosPaginated_begin_def Let_def showLoadingIndicator_def
      photoWall_update_element photoWall_appendChild split: option.splits)

lemma fetch_step:
  assumes "\<not> isLoading s" and "photoWall (doc s) \<noteq> None"
  shows "hasMore (loadPhotosPaginated page appendMode (Success r) s) = res_has_more r"
    and "currentPage (loadPhotosPaginated page appendMode (Success r) s) = page"
    and "\<not> isLoading (loadPhotosPaginated page appendMode (Success r) s)"
    and "photoWall (doc (loadPhotosPaginated page appendMode (Success r) s)) \<noteq> None"
    and "res_has_more r \<Longrightarrow> shown ''loadMorePhotosBtn'' (doc (loadPhotosPaginated page appendMode (Success r) s))"
    and "\<not> res_has_more r \<Longrightarrow> hidden ''loadMorePhotosBtn'' (doc (loadPhotosPaginated page appendMode (Success r) s))"
proof -
  let ?s1 = "loadPhotosPaginated_begin page appendMode s"
  let ?s2 = "?s1\<lparr>awaiting := remove1 (page, appendMode) (awaiting ?s1)\<rparr>"
  let ?s3 = "?s2\<lparr>photos := (if appendMode then photos ?s2 @ res_photos r else res_photos r),
                hasMore := res_has_more r, currentPage := page\<rparr>"
  let ?s4 = "renderPhotosOptimized (res_photos r) appendMode ?s3"
  let ?s5 = "updateLoadMoreButton ?s4"
  let ?t = "loadPhotosPaginated page appendMode (Success r) s"
  have t: "?t = finally_block ?s5"
    using assms(1) by (simp add: loadPhotosPaginated_def loadPhotosPaginated_resume_def Let_def)
  have w4: "photoWall (doc ?s4) \<noteq> None"
    using assms(2) by (simp add: render_keeps_wall begin_keeps_wall)
  have h4: "hasMore ?s4 = res_has_more r" "currentPage ?s4 = page"
    by (simp_all add: renderPhotosOptimized_frame)
  show "hasMore ?t = res_has_more r" "currentPage ?t = page" "\<not> isLoading ?t"
    "photoWall (doc ?t) \<noteq> None"
    unfolding t using w4 h4
    by (simp_all add: finally_block_fields updateLoadMoreButton_fields)
  show "shown ''loadMorePhotosBtn'' (doc ?t)" if "res_has_more r"
    unfolding t using updateLoadMoreButton_shown [of ?s4] w4 h4 that
    by (simp add: shown_def finally_block_button)
  show "hidden ''loadMorePhotosBtn'' (doc ?t)" if "\<not> res_has_more r"
    unfolding t using updateLoadMoreButton_hidden [of ?s4] h4 that
    by (simp add: hidden_def finally_block_button)
qed

lemma fetch_pages_append:
  "fetch_pages (rs @ [(page, appendMode, r)]) s
     = loadPhotosPaginated page appendMode (Success r) (fetch_pages rs s)"
  by (induction rs arbitrary: s) auto

lemma fetch_pages_ready:
  assumes "\<not> isLoading s" and "photoWall (doc s) \<noteq> None"
  shows "\<not> isLoading (fetch_pages rs s) \<and> photoWall (doc (fetch_pages rs s)) \<noteq> None"
  using assms
proof (induction rs arbitrary: s)
  case Nil
  then show ?case by simp
next
  case (Cons x rs)
  obtain page appendMode r where x: "x = (page, appendMode, r)" by (cases x)
  show ?case
    unfolding x fetch_pages.simps
    by (rule Cons.IH) (rule fetch_step [OF Cons.prems])+
qed

lemma scrollHandler_effect:
  "awaiting (scrollHandler x y z u) =
     (if \<not> inThrottle u \<and> x + y \<ge> z - 500 \<and> hasMore u \<and> \<not> isLoading u
      then awaiting u @ [(currentPage u + 1, True)] else awaiting u)"
  "requests (scrollHandler x y z u) =
     (if \<not> inThrottle u \<and> x + y \<ge> z - 500 \<and> hasMore u \<and> \<not> isLoading u
      then requests u @ [listing_url (baseUrl u) (currentPage u + 1) (perPage u)] else requests u)"
  "hasMore (scrollHandler x y z u) = hasMore u"
proof -
  have b: "baseUrl (showLoadingIndicator t) = baseUrl t" "perPage (showLoadingIndicator t) = perPage t"
    "requests (showLoadingIndicator t) = requests t" "awaiting (showLoadingIndicator t) = awaiting t"
    "hasMore (showLoadingIndicator t) = hasMore t" for t
    by (subst showLoadingIndicator_shape, simp)+
  show "awaiting (scrollHandler x y z u) =
     (if \<not> inThrottle u \<and> x + y \<ge> z - 500 \<and> hasMore u \<and> \<not> isLoading u
      then awaiting u @ [(currentPage u + 1, True)] else awaiting u)"
    "requests (scrollHandler x y z u) =
     (if \<not> inThrottle u \<and> x + y \<ge> z - 500 \<and> hasMore u \<and> \<not> isLoading u
      then requests u @ [listing_url (baseUrl u) (currentPage u + 1) (perPage u)] else requests u)"
    "hasMore (scrollHandler x y z u) = hasMore u"
    by (simp_all add: scrollHandler_def scroll_check_def loadPhotosPaginated_begin_def Let_def b)
qed

lemma scrolling_without_more:
  assumes "\<not> hasMore s" and "list_all is_scroll evs" and "run evs s = Some u"
  shows "requests u = requests s \<and> awaiting u = awaiting s \<and> \<not> hasMore u"
  using assms
proof (induction evs arbitrary: s)
  case Nil
  then show ?case by simp
next
  case (Cons e evs)
  from Cons.prems(2) have sc: "is_scroll e" and rest: "list_all is_scroll evs" by simp_all
  from Cons.prems(3) obtain v where v: "apply_event e s = Some v" and r: "run evs v = Some u"
    by (auto split: option.splits)
  have "requests v = requests s \<and> awaiting v = awaiting s \<and> \<not> hasMore v"
    using sc v Cons.prems(1)
    by (cases e) (auto simp: scrollHandler_effect throttle_timeout_def)
  then show ?case
    using Cons.IH [OF _ rest r] by simp
qed

text \<open>
  C3. On a page that has the wall, calls of loadPhotosPaginated made one after the other,
  each fetch succeeding, the first while isLoading is false; every response but the
  last has has\_more true, the last has it false. After each call but the last the
  load-more button is in the document with display block; after the last it is absent
  or has display none and hasMore is false, and from then on scroll events and throttle
  timers, however many, issue no request and suspend no call. In any state the scroll
  handler starts a call exactly when it is not throttled, the page is within 500 pixels
  of its bottom, hasMore is true and isLoading is false; the call is the one for
  currentPage + 1 in append mode.
\<close>

theorem C3_button_follows_has_more_and_scroll_stops:
  assumes "\<not> isLoading s" and "photoWall (doc s) \<noteq> None"
    and "\<forall>x \<in> set rs. res_has_more (snd (snd x))" and "\<not> res_has_more r"
  shows "(\<forall>k < length rs. shown ''loadMorePhotosBtn'' (doc (fetch_pages (take (Suc k) rs) s)))
       \<and> hidden ''loadMorePhotosBtn'' (doc (fetch_pages (rs @ [(page, appendMode, r)]) s))
       \<and> \<not> hasMore (fetch_pages (rs @ [(page, appendMode, r)]) s)
       \<and> (\<forall>evs u. list_all is_scroll evs \<longrightarrow>
             run evs (fetch_pages (rs @ [(page, appendMode, r)]) s) = Some u \<longrightarrow>
               requests u = requests (fetch_pages (rs @ [(page, appendMode, r)]) s)
             \<and> awaiting u = awaiting (fetch_pages (rs @ [(page, appendMode, r)]) s))
       \<and> (\<forall>u x y z.
             awaiting (scrollHandler x y z u) =
               (if \<not> inThrottle u \<and> x + y \<ge> z - 500 \<and> hasMore u \<and> \<not> isLoading u
                then awaiting u @ [(currentPage u + 1, True)] else awaiting u)
           \<and> requests (scrollHandler x y z u) =
               (if \<not> inThrottle u \<and> x + y \<ge> z - 500 \<and> hasMore u \<and> \<not> isLoading u
                then requests u @ [listing_url (baseUrl u) (currentPage u + 1) (perPage u)]
                else requests u))"
proof -
  let ?final = "fetch_pages (rs @ [(page, appendMode, r)]) s"
  have visible: "shown ''loadMorePhotosBtn'' (doc (fetch_pages (take (Suc k) rs) s))"
    if "k < length rs" for k
  proof -
    obtain p a x where x: "rs ! k = (p, a, x)" by (cases "rs ! k")
    have "rs ! k \<in> set rs" using that by simp
    then have more: "res_has_more x" using assms(3) x by force
    have ready: "\<not> isLoading (fetch_pages (take k rs) s)"
      "photoWall (doc (fetch_pages (take k rs) s)) \<noteq> None"
      using fetch_pages_ready [OF assms(1,2)] by simp_all
    have "fetch_pages (take (Suc k) rs) s
            = loadPhotosPaginated p a (Success x) (fetch_pages (take k rs) s)"
      by (simp add: take_Suc_conv_app_nth [OF that] x fetch_pages_append)
    then show ?thesis
      using fetch_step(5) [OF ready more] by simp
  qed
  have ready: "\<not> isLoading (fetch_pages rs s)" "photoWall (doc (fetch_pages rs s)) \<noteq> None"
    using fetch_pages_ready [OF assms(1,2)] by simp_all
  have last_hidden: "hidden ''loadMorePhotosBtn'' (doc ?final)"
    unfolding fetch_pages_append by (rule fetch_step(6) [OF ready assms(4)])
  have no_more: "\<not> hasMore ?final"
    unfolding fetch_pages_append using fetch_step(1) [OF ready] assms(4) by simp
  have quiet: "requests u = requests ?final \<and> awaiting u = awaiting ?final"
    if "list_all is_scroll evs" "run evs ?final = Some u" for evs u
    using scrolling_without_more [OF no_more that] by simp
  from visible last_hidden no_more quiet scrollHandler_effect(1,2) show ?thesis
    by blast
qed

theorem C3_witness:
  "\<not> isLoading ready_page \<and> photoWall (doc ready_page) \<noteq> None
   \<and> shown ''loadMorePhotosBtn'' (doc (fetch_pages
        [(1, False, \<lparr>res_photos = [photo_a, photo_b], res_has_more = True\<rparr>)] ready_page))
   \<and> shown ''loadMorePhotosBtn'' (doc (fetch_pages
        [(1, False, \<lparr>res_photos = [photo_a, photo_b], res_has_more = True\<rparr>),
         (2, True, \<lparr>res_photos = [photo_a], res_has_more = True\<rparr>)] ready_page))
   \<and> hidden ''loadMorePhotosBtn'' (doc (fetch_pages
        [(1, False, \<lparr>res_photos = [photo_a, photo_b], res_has_more = True\<rparr>),
         (2, True, \<lparr>res_photos = [photo_a], res_has_more = True\<rparr>),
         (3, True, \<lparr>res_photos = [photo_b], res_has_more = False\<rparr>)] ready_page))
   \<and> requests (scrollHandler 950 700 1000 (throttle_timeout (scrollHandler 900 700 1000
        (fetch_pages
          [(1, False, \<lparr>res_photos = [photo_a, photo_b], res_has_more = True\<rparr>),
           (2, True, \<lparr>res_photos = [photo_a], res_has_more = True\<rparr>),
           (3, True, \<lparr>res_photos = [photo_b], res_has_more = False\<rparr>)] ready_page))))
     = requests (fetch_pages
          [(1, False, \<lparr>res_photos = [photo_a, photo_b], res_has_more = True\<rparr>),
           (2, True, \<lparr>res_photos = [photo_a], res_has_more = True\<rparr>),
           (3, True, \<lparr>res_photos = [photo_b], res_has_more = False\<rparr>)] ready_page)"
proof -
  let ?r1 = "(1::int, False, \<lparr>res_photos = [photo_a, photo_b], res_has_more = True\<rparr>)"
  let ?r2 = "(2::int, True, \<lparr>res_photos = [photo_a], res_has_more = True\<rparr>)"
  let ?r3 = "\<lparr>res_photos = [photo_b], res_has_more = False\<rparr>"
  let ?final = "fetch_pages [?r1, ?r2, (3, True, ?r3)] ready_page"
  have h: "\<not> isLoading ready_page" "photoWall (doc ready_page) \<noteq> None"
    by code_simp+
  have more: "\<forall>x \<in> set [?r1, ?r2]. res_has_more (snd (snd x))" by simp
  have last: "\<not> res_has_more ?r3" by simp
  note c = C3_button_follows_has_more_and_scroll_stops [OF h more last, of 3 True]
  from c have v: "\<forall>k < length [?r1, ?r2].
      shown ''loadMorePhotosBtn'' (doc (fetch_pages (take (Suc k) [?r1, ?r2]) ready_page))"
    by (rule conjunct1)
  have v0: "shown ''loadMorePhotosBtn'' (doc (fetch_pages [?r1] ready_page))"
    using v [rule_format, of 0] by simp
  have v1: "shown ''loadMorePhotosBtn'' (doc (fetch_pages [?r1, ?r2] ready_page))"
    using v [rule_format, of 1] by simp
  from c have hid: "hidden ''loadMorePhotosBtn'' (doc ?final)"
    by simp
  from c have q: "\<forall>evs u. list_all is_scroll evs \<longrightarrow> run evs ?final = Some u \<longrightarrow>
      requests u = requests ?final \<and> awaiting u = awaiting ?final"
    by simp
  have "requests (scrollHandler 950 700 1000 (throttle_timeout (scrollHandler 900 700 1000 ?final)))
          = requests ?final"
    using q [rule_format, of "[Scroll 900 700 1000, ThrottleTimeout, Scroll 950 700 1000]"]
    by simp
  with h v0 v1 hid show ?thesis by simp
qed

end
